theory Spec2Isabelle
  imports Complex_Main "HOL-Library.Log_Nat"
begin

section \<open>JavaScript numbers\<close>

text \<open>
  Every amount in the repository is a JavaScript Number, an IEEE-754 binary64 value.
  A finite Number is modelled as the rational it denotes. An arithmetic operation
  computes the exact rational result and rounds it to the nearest value with a 53-bit
  significand, ties going to the even significand (\<open>fl\<close>). The exponent range is
  not bounded in the model: results beyond \<open>2^1024\<close> or below \<open>2^-1022\<close> in magnitude,
  where binary64 overflows or loses precision, do not arise from the amounts treated here.
\<close>

type_synonym jsnum = rat

text \<open>The exponent \<open>e\<close> with \<open>2^e \<le> x < 2^(e+1)\<close>, for positive \<open>x\<close>.\<close>

definition binade :: "rat \<Rightarrow> int" where
  "binade x = (let (p, q) = quotient_of x; d = bitlen p - bitlen q
               in if 2 powi d \<le> x then d else d - 1)"

text \<open>Rounding to the nearest integer, a tie going to the even one.\<close>

definition rne :: "rat \<Rightarrow> int" where
  "rne q = (let n = \<lfloor>q\<rfloor>; r = q - of_int n
            in if r < 1/2 then n else if 1/2 < r then n + 1
               else if even n then n else n + 1)"

definition fl :: "rat \<Rightarrow> jsnum" where
  "fl x = (if x = 0 then 0
           else let t = binade \<bar>x\<bar> - 52
                in sgn x * of_int (rne (\<bar>x\<bar> / 2 powi t)) * 2 powi t)"

text \<open>Rounding leaves a rational as it is exactly when its significand fits 53 bits;
  every finite Number is such a rational.\<close>

definition is_double :: "rat \<Rightarrow> bool" where
  "is_double x \<longleftrightarrow> fl x = x"

text \<open>The operators \<open>*\<close> and \<open>-\<close>, and the two functions of \<open>Math\<close> the code calls.
  \<open>Math.floor\<close> and \<open>Math.round\<close> are exact: \<open>Math.round\<close> takes the nearest integer
  and, at a tie, the one towards plus infinity.\<close>

definition js_mul :: "jsnum \<Rightarrow> jsnum \<Rightarrow> jsnum" where
  "js_mul x y = fl (x * y)"

definition js_sub :: "jsnum \<Rightarrow> jsnum \<Rightarrow> jsnum" where
  "js_sub x y = fl (x - y)"

definition Math_floor :: "jsnum \<Rightarrow> jsnum" where
  "Math_floor x = of_int \<lfloor>x\<rfloor>"

definition Math_round :: "jsnum \<Rightarrow> jsnum" where
  "Math_round x = of_int \<lfloor>x + 1/2\<rfloor>"

section \<open>The constitution: \<open>constitution.js\<close>\<close>

datatype error =
    FACE_VALUE_NOT_ALLOWED
  | INVALID_BATCH_COUNT
  | SELLER_CLASS_E_NOT_PERMITTED

definition NFT_FACE_VALUE_LADDER :: "jsnum list" where
  "NFT_FACE_VALUE_LADDER =
     [250, 500, 1000, 2000, 4000, 8000, 15000, 30000, 60000, 120000,
      220000, 380000, 600000, 850000, 1000000]"

definition assertFaceValueAllowed :: "jsnum \<Rightarrow> error + unit" where
  "assertFaceValueAllowed v =
     (if v \<notin> set NFT_FACE_VALUE_LADDER then Inl FACE_VALUE_NOT_ALLOWED else Inr ())"

text \<open>A decimal literal denotes the Number nearest to it.\<close>

definition LV_RATE :: jsnum where
  "LV_RATE = fl (10 / 100)"

definition UV_RATE :: jsnum where
  "UV_RATE = fl (90 / 100)"

record lv_uv =
  lv :: jsnum
  uv :: jsnum

definition splitLvUv :: "jsnum \<Rightarrow> error + lv_uv" where
  "splitLvUv faceValue =
     (case assertFaceValueAllowed faceValue of
        Inl e \<Rightarrow> Inl e
      | Inr _ \<Rightarrow>
          let lv = Math_round (js_mul faceValue LV_RATE);
              uv = js_sub faceValue lv
          in Inr \<lparr>lv = lv, uv = uv\<rparr>)"

record cash_out_row =
  collaboratorUvPct :: jsnum
  trebalUvPct :: jsnum

text \<open>The table is an object with the keys 1 to 5; any other Number finds no row. The
  parameter \<open>uv\<close> of the functions below is written \<open>usable\<close>: \<open>uv\<close> names a field of the
  result of \<open>splitLvUv\<close>.\<close>

definition CASH_OUT_TABLE :: "jsnum \<Rightarrow> cash_out_row option" where
  "CASH_OUT_TABLE k =
     (if k = 1 then Some \<lparr>collaboratorUvPct = fl (30 / 100), trebalUvPct = fl (70 / 100)\<rparr>
      else if k = 2 then Some \<lparr>collaboratorUvPct = fl (35 / 100), trebalUvPct = fl (65 / 100)\<rparr>
      else if k = 3 then Some \<lparr>collaboratorUvPct = fl (40 / 100), trebalUvPct = fl (60 / 100)\<rparr>
      else if k = 4 then Some \<lparr>collaboratorUvPct = fl (45 / 100), trebalUvPct = fl (55 / 100)\<rparr>
      else if k = 5 then Some \<lparr>collaboratorUvPct = fl (50 / 100), trebalUvPct = fl (50 / 100)\<rparr>
      else None)"

record cash_out =
  collaboratorPayout :: jsnum
  trebalCapture :: jsnum

definition cashOutSplit :: "jsnum \<Rightarrow> jsnum \<Rightarrow> error + cash_out" where
  "cashOutSplit batchCount usable =
     (case CASH_OUT_TABLE batchCount of
        None \<Rightarrow> Inl INVALID_BATCH_COUNT
      | Some row \<Rightarrow>
          let collaboratorPayout = Math_floor (js_mul usable (collaboratorUvPct row));
              trebalCapture = js_sub usable collaboratorPayout
          in Inr \<lparr>collaboratorPayout = collaboratorPayout, trebalCapture = trebalCapture\<rparr>)"

record sponsorship =
  collaborator :: jsnum
  seller :: jsnum
  retained :: jsnum

definition sponsorshipSplit :: "jsnum \<Rightarrow> sponsorship" where
  "sponsorshipSplit usable =
     (let collaborator = Math_floor (js_mul usable (fl (50 / 100)));
          seller = Math_floor (js_mul usable (fl (25 / 100)));
          retained = js_sub (js_sub usable collaborator) seller
      in \<lparr>collaborator = collaborator, seller = seller, retained = retained\<rparr>)"

record allocation =
  platformFee :: jsnum
  discountPool :: jsnum

definition distributionInternalAllocationFromUv :: "jsnum \<Rightarrow> allocation" where
  "distributionInternalAllocationFromUv uvOriginal =
     (let platformFee = Math_floor (js_mul uvOriginal (fl (10 / 100)));
          discountPool = Math_floor (js_mul uvOriginal (fl (15 / 100)))
      in \<lparr>platformFee = platformFee, discountPool = discountPool\<rparr>)"

definition computeSellerClass :: "jsnum \<Rightarrow> string" where
  "computeSellerClass sem =
     (if sem \<ge> 300 then ''A''
      else if sem \<ge> 150 then ''B''
      else if sem \<ge> 80 then ''C''
      else if sem \<ge> 40 then ''D''
      else ''E'')"

definition DISTRIBUTION_TERMINAL_THRESHOLD :: jsnum where
  "DISTRIBUTION_TERMINAL_THRESHOLD = 40"

definition assertSellerCanDistribute :: "string \<Rightarrow> error + unit" where
  "assertSellerCanDistribute sellerClass =
     (if sellerClass = ''E'' then Inl SELLER_CLASS_E_NOT_PERMITTED else Inr ())"

section \<open>The HTTP handlers\<close>

text \<open>
  The Express application keeps users, certificates and audit events in a database. The
  model holds the three tables as lists, \<open>findUnique\<close>, \<open>count\<close>, \<open>update\<close> and \<open>create\<close>
  as list functions, and each route as a function from the request and the database to
  the response and the new database. The \<open>auth\<close> middleware leaves the verified token
  in \<open>req.user\<close>, or answers 401 when there is none; \<open>requireRole\<close> answers 403 when
  the token lacks the role. A state change and its audit event are written in one
  transaction, so they appear together or not at all. Roles and states are the string
  literals of the code. The four routes that act on a certificate after its purchase are
  modelled; a handler that throws answers with \<open>Thrown\<close> and writes nothing.
\<close>

record token =
  sub :: string
  roles :: "string list"

record user =
  user_id :: string
  email :: string
  user_roles :: "string list"
  verified :: bool

record nft =
  nft_id :: string
  faceValue :: jsnum
  lockedValue :: jsnum
  usableValue :: jsnum
  state :: string
  ownerId :: string
  giftedFromId :: "string option"
  distributionRemainingValue :: "jsnum option"

datatype json = JString string | JNumber jsnum

record audit_event =
  actorId :: "string option"
  event_type :: string
  payload :: "(string \<times> json) list"

record db =
  users :: "user list"
  nfts :: "nft list"
  auditEvents :: "audit_event list"

datatype response =
    Reject nat string
  | Thrown string
  | Ok_nft nft
  | Ok_payout nft cash_out
  | Ok_sponsorship nft sponsorship allocation

text \<open>The database calls the handlers make.\<close>

definition nft_findUnique :: "db \<Rightarrow> string \<Rightarrow> nft option" where
  "nft_findUnique d i = find (\<lambda>n. nft_id n = i) (nfts d)"

definition user_findUnique :: "db \<Rightarrow> string \<Rightarrow> user option" where
  "user_findUnique d i = find (\<lambda>u. user_id u = i) (users d)"

definition nft_count_active :: "db \<Rightarrow> string \<Rightarrow> nat" where
  "nft_count_active d owner =
     length (filter (\<lambda>n. ownerId n = owner \<and> state n \<noteq> ''RETIRED'') (nfts d))"

definition nft_update :: "db \<Rightarrow> string \<Rightarrow> nft \<Rightarrow> db" where
  "nft_update d i n' = d\<lparr>nfts := map (\<lambda>n. if nft_id n = i then n' else n) (nfts d)\<rparr>"

definition auditEvent_create :: "db \<Rightarrow> audit_event \<Rightarrow> db" where
  "auditEvent_create d e = d\<lparr>auditEvents := auditEvents d @ [e]\<rparr>"

text \<open>\<open>POST /nft/gift\<close>, for the role CUSTOMER.\<close>

definition nft_gift :: "token option \<Rightarrow> string \<Rightarrow> string \<Rightarrow> db \<Rightarrow> response \<times> db" where
  "nft_gift req_user nftId collaboratorId d =
     (case req_user of
        None \<Rightarrow> (Reject 401 ''UNAUTHENTICATED'', d)
      | Some t \<Rightarrow>
          if ''CUSTOMER'' \<notin> set (roles t) then (Reject 403 ''FORBIDDEN'', d)
          else case nft_findUnique d nftId of
            None \<Rightarrow> (Reject 404 ''NFT_NOT_FOUND'', d)
          | Some n \<Rightarrow>
              if ownerId n \<noteq> sub t then (Reject 403 ''NOT_OWNER'', d)
              else case user_findUnique d collaboratorId of
                None \<Rightarrow> (Reject 400 ''INVALID_COLLABORATOR'', d)
              | Some c \<Rightarrow>
                  if ''COLLABORATOR'' \<notin> set (user_roles c)
                  then (Reject 400 ''INVALID_COLLABORATOR'', d)
                  else if nft_count_active d collaboratorId \<ge> 5
                  then (Reject 409 ''COLLABORATOR_NFT_CAP_REACHED'', d)
                  else
                    let u = n\<lparr>ownerId := collaboratorId, giftedFromId := Some (sub t),
                                state := ''GIFT''\<rparr>;
                        e = \<lparr>actorId = Some (sub t), event_type = ''NFT_GIFTED'',
                             payload = [(''nftId'', JString nftId), (''to'', JString collaboratorId)]\<rparr>
                    in (Ok_nft u, auditEvent_create (nft_update d nftId u) e))"

text \<open>\<open>POST /collab/nft/stack\<close>, for the role COLLABORATOR.\<close>

definition collab_nft_stack :: "token option \<Rightarrow> string \<Rightarrow> db \<Rightarrow> response \<times> db" where
  "collab_nft_stack req_user nftId d =
     (case req_user of
        None \<Rightarrow> (Reject 401 ''UNAUTHENTICATED'', d)
      | Some t \<Rightarrow>
          if ''COLLABORATOR'' \<notin> set (roles t) then (Reject 403 ''FORBIDDEN'', d)
          else case nft_findUnique d nftId of
            None \<Rightarrow> (Reject 404 ''NFT_NOT_FOUND'', d)
          | Some n \<Rightarrow>
              if ownerId n \<noteq> sub t then (Reject 403 ''NOT_OWNER'', d)
              else if state n = ''RETIRED'' then (Reject 409 ''NFT_RETIRED'', d)
              else
                let u = n\<lparr>state := ''STACKED''\<rparr>;
                    e = \<lparr>actorId = Some (sub t), event_type = ''NFT_STACKED'',
                         payload = [(''nftId'', JString nftId)]\<rparr>
                in (Ok_nft u, auditEvent_create (nft_update d nftId u) e))"

text \<open>\<open>POST /collab/nft/cashout\<close>. The request schema asks for an integer batch count
  from 1 to 5; parsing any other body throws before the database is read.\<close>

definition collab_nft_cashout ::
    "token option \<Rightarrow> string \<Rightarrow> jsnum \<Rightarrow> db \<Rightarrow> response \<times> db" where
  "collab_nft_cashout req_user nftId batchCount d =
     (case req_user of
        None \<Rightarrow> (Reject 401 ''UNAUTHENTICATED'', d)
      | Some t \<Rightarrow>
          if ''COLLABORATOR'' \<notin> set (roles t) then (Reject 403 ''FORBIDDEN'', d)
          else if \<not> (batchCount = of_int \<lfloor>batchCount\<rfloor> \<and> 1 \<le> batchCount \<and> batchCount \<le> 5)
          then (Thrown ''ZodError'', d)
          else case nft_findUnique d nftId of
            None \<Rightarrow> (Reject 404 ''NFT_NOT_FOUND'', d)
          | Some n \<Rightarrow>
              if ownerId n \<noteq> sub t then (Reject 403 ''NOT_OWNER'', d)
              else if state n = ''RETIRED'' then (Reject 409 ''NFT_RETIRED'', d)
              else case cashOutSplit batchCount (usableValue n) of
                Inl _ \<Rightarrow> (Thrown ''INVALID_BATCH_COUNT'', d)
              | Inr split \<Rightarrow>
                  let u = n\<lparr>state := ''RETIRED''\<rparr>;
                      e = \<lparr>actorId = Some (sub t), event_type = ''NFT_CASHED_OUT'',
                           payload = [(''nftId'', JString nftId), (''batchCount'', JNumber batchCount),
                                      (''collaboratorPayout'', JNumber (collaboratorPayout split)),
                                      (''trebalCapture'', JNumber (trebalCapture split))]\<rparr>
                  in (Ok_payout u split, auditEvent_create (nft_update d nftId u) e))"

text \<open>\<open>POST /collab/nft/sponsorship-convert\<close>.\<close>

definition collab_nft_sponsorship_convert ::
    "token option \<Rightarrow> string \<Rightarrow> string \<Rightarrow> db \<Rightarrow> response \<times> db" where
  "collab_nft_sponsorship_convert req_user nftId sellerId d =
     (case req_user of
        None \<Rightarrow> (Reject 401 ''UNAUTHENTICATED'', d)
      | Some t \<Rightarrow>
          if ''COLLABORATOR'' \<notin> set (roles t) then (Reject 403 ''FORBIDDEN'', d)
          else case nft_findUnique d nftId of
            None \<Rightarrow> (Reject 404 ''NFT_NOT_FOUND'', d)
          | Some n \<Rightarrow>
              if (case user_findUnique d sellerId of
                    None \<Rightarrow> True | Some s \<Rightarrow> ''SELLER'' \<notin> set (user_roles s))
              then (Reject 400 ''INVALID_SELLER'', d)
              else if ownerId n \<noteq> sub t then (Reject 403 ''NOT_OWNER'', d)
              else if state n = ''RETIRED'' then (Reject 409 ''NFT_RETIRED'', d)
              else
                let split = sponsorshipSplit (usableValue n);
                    alloc = distributionInternalAllocationFromUv (usableValue n);
                    u = n\<lparr>state := ''DISTRIBUTION'', ownerId := sellerId,
                            distributionRemainingValue := Some (retained split)\<rparr>;
                    e = \<lparr>actorId = Some (sub t), event_type = ''NFT_SPONSORSHIP_CONVERTED'',
                         payload = [(''nftId'', JString nftId), (''sellerId'', JString sellerId),
                                    (''collaboratorPayout'', JNumber (collaborator split)),
                                    (''sellerInstantValue'', JNumber (seller split)),
                                    (''retained'', JNumber (retained split)),
                                    (''platformFeeFromUv'', JNumber (platformFee alloc)),
                                    (''discountPoolFromUv'', JNumber (discountPool alloc))]\<rparr>
                in (Ok_sponsorship u split alloc, auditEvent_create (nft_update d nftId u) e))"

text \<open>A response that is not a success.\<close>

definition failed :: "response \<Rightarrow> bool" where
  "failed r = (case r of Reject _ _ \<Rightarrow> True | Thrown _ \<Rightarrow> True | _ \<Rightarrow> False)"

section \<open>Reference definitions, from the specification\<close>

text \<open>The seller class as the specification words it: one interval per class, with the
  boundaries 300, 150, 80 and 40.\<close>

definition seller_class_spec :: "int \<Rightarrow> string" where
  "seller_class_spec sem =
     (if 300 \<le> sem then ''A''
      else if 150 \<le> sem \<and> sem < 300 then ''B''
      else if 80 \<le> sem \<and> sem < 150 then ''C''
      else if 40 \<le> sem \<and> sem < 80 then ''D''
      else ''E'')"

text \<open>The collaborator percentage of the cash-out table as the specification gives it,
  in exact decimal fractions: 30, 35, 40, 45 and 50 percent for the batch counts 1 to 5.\<close>

definition cash_out_pct_spec :: "rat \<Rightarrow> rat" where
  "cash_out_pct_spec b =
     (if b = 1 then 30 / 100 else if b = 2 then 35 / 100 else if b = 3 then 40 / 100
      else if b = 4 then 45 / 100 else 50 / 100)"

section \<open>An example database\<close>

text \<open>
  Five users and eight certificates, used to evaluate the handlers: bob, a collaborator,
  owns five certificates that are not RETIRED; carol and dave each own a RETIRED one;
  dave holds both the CUSTOMER and the COLLABORATOR role (the roles of a user are a list,
  and the seeded administrator holds three).
\<close>

definition example_nft :: "string \<Rightarrow> string \<Rightarrow> string \<Rightarrow> nft" where
  "example_nft i st owner =
     \<lparr>nft_id = i, faceValue = 1000, lockedValue = 100, usableValue = 900, state = st,
      ownerId = owner, giftedFromId = None, distributionRemainingValue = None\<rparr>"

definition example_user :: "string \<Rightarrow> string list \<Rightarrow> user" where
  "example_user i rs = \<lparr>user_id = i, email = i @ ''@trebal.local'', user_roles = rs, verified = True\<rparr>"

definition example_db :: db where
  "example_db =
     \<lparr>users = [example_user ''alice'' [''CUSTOMER''],
               example_user ''bob'' [''COLLABORATOR''],
               example_user ''carol'' [''COLLABORATOR''],
               example_user ''dave'' [''CUSTOMER'', ''COLLABORATOR''],
               example_user ''sam'' [''SELLER'']],
      nfts = [example_nft ''n0'' ''GIFT'' ''alice'',
              example_nft ''n1'' ''GIFT'' ''bob'',
              example_nft ''n2'' ''GIFT'' ''bob'',
              example_nft ''n3'' ''STACKED'' ''bob'',
              example_nft ''n4'' ''STACKED'' ''bob'',
              example_nft ''n5'' ''DISTRIBUTION'' ''bob'',
              example_nft ''n6'' ''RETIRED'' ''carol'',
              example_nft ''n7'' ''RETIRED'' ''dave''],
      auditEvents = []\<rparr>"

definition token_of :: "string \<Rightarrow> string list \<Rightarrow> token" where
  "token_of i rs = \<lparr>sub = i, roles = rs\<rparr>"

section \<open>Rounding to binary64\<close>

subsection \<open>The exponent of a positive rational\<close>

lemma two_powi_pos: "0 < (2::rat) powi k" by simp

lemma two_powi_nat: "0 \<le> k \<Longrightarrow> (2::rat) powi k = 2 ^ nat k"
  by (simp add: power_int_def)

lemma binade_bounds:
  assumes "0 < x"
  shows "2 powi (binade x) \<le> x \<and> x < 2 powi (binade x + 1)"
proof -
  obtain p q where pq: "quotient_of x = (p, q)" by (cases "quotient_of x")
  have q: "0 < q" using pq by (rule quotient_of_denom_pos)
  have x: "x = of_int p / of_int q" using pq by (rule quotient_of_div)
  have p: "0 < p" using assms q x by (simp add: zero_less_divide_iff)
  define bp where "bp = bitlen p"
  define bq where "bq = bitlen q"
  have bp1: "1 \<le> bp" and bq1: "1 \<le> bq"
    using p q bitlen_eq_zero_iff[of p] bitlen_eq_zero_iff[of q] bitlen_nonneg[of p] bitlen_nonneg[of q]
    unfolding bp_def bq_def by linarith+
  have pb: "2 ^ nat (bp - 1) \<le> p" "p < 2 ^ nat bp"
    using bitlen_bounds[OF p] unfolding bp_def by auto
  have qb: "2 ^ nat (bq - 1) \<le> q" "q < 2 ^ nat bq"
    using bitlen_bounds[OF q] unfolding bq_def by auto
  have pbr: "(2::rat) powi (bp - 1) \<le> of_int p" "of_int p < (2::rat) powi bp"
  proof -
    have "(of_int (2 ^ nat (bp - 1)) :: rat) \<le> of_int p" using pb(1) by (simp only: of_int_le_iff)
    then show "(2::rat) powi (bp - 1) \<le> of_int p" using bp1 by (simp add: two_powi_nat)
    have "(of_int p :: rat) < of_int (2 ^ nat bp)" using pb(2) by (simp only: of_int_less_iff)
    then show "of_int p < (2::rat) powi bp" using bp1 by (simp add: two_powi_nat)
  qed
  have qbr: "(2::rat) powi (bq - 1) \<le> of_int q" "of_int q < (2::rat) powi bq"
  proof -
    have "(of_int (2 ^ nat (bq - 1)) :: rat) \<le> of_int q" using qb(1) by (simp only: of_int_le_iff)
    then show "(2::rat) powi (bq - 1) \<le> of_int q" using bq1 by (simp add: two_powi_nat)
    have "(of_int q :: rat) < of_int (2 ^ nat bq)" using qb(2) by (simp only: of_int_less_iff)
    then show "of_int q < (2::rat) powi bq" using bq1 by (simp add: two_powi_nat)
  qed
  have qpos: "(0::rat) < of_int q" using q by simp
  have up: "x < 2 powi (bp - bq + 1)"
  proof -
    have "of_int p < (2::rat) powi (bp - bq + 1) * 2 powi (bq - 1)"
      using pbr(2) by (simp flip: power_int_add)
    also have "\<dots> \<le> 2 powi (bp - bq + 1) * of_int q"
      using qbr(1) by (intro mult_left_mono) simp_all
    finally show ?thesis using qpos by (simp add: x pos_divide_less_eq)
  qed
  have lo: "2 powi (bp - bq - 1) \<le> x"
  proof -
    have "(2::rat) powi (bp - bq - 1) * of_int q \<le> 2 powi (bp - bq - 1) * 2 powi bq"
      using qbr(2) by (intro mult_left_mono) simp_all
    also have "\<dots> = 2 powi (bp - 1)" by (simp flip: power_int_add)
    also have "\<dots> \<le> of_int p" by (rule pbr(1))
    finally show ?thesis using qpos by (simp add: x pos_le_divide_eq)
  qed
  have b: "binade x = (if 2 powi (bp - bq) \<le> x then bp - bq else bp - bq - 1)"
    by (simp add: binade_def pq bp_def bq_def Let_def)
  show ?thesis
  proof (cases "2 powi (bp - bq) \<le> x")
    case True then show ?thesis using up b by simp
  next
    case False then show ?thesis using lo b by simp
  qed
qed

lemma binade_eqI:
  assumes "2 powi e \<le> x" "x < 2 powi (e + 1)"
  shows "binade x = e"
proof -
  have x: "0 < x" using assms(1) two_powi_pos[of e] by linarith
  note b = binade_bounds[OF x]
  have "\<not> binade x < e"
  proof
    assume "binade x < e"
    then have "binade x + 1 \<le> e" by simp
    then have "(2::rat) powi (binade x + 1) \<le> 2 powi e" by (intro power_int_increasing) simp_all
    then show False using b assms by linarith
  qed
  moreover have "\<not> e < binade x"
  proof
    assume "e < binade x"
    then have "e + 1 \<le> binade x" by simp
    then have "(2::rat) powi (e + 1) \<le> 2 powi binade x" by (intro power_int_increasing) simp_all
    then show False using b assms by linarith
  qed
  ultimately show ?thesis by simp
qed

lemma binade_mono:
  assumes "0 < x" "x \<le> y"
  shows "binade x \<le> binade y"
proof (rule ccontr)
  assume "\<not> binade x \<le> binade y"
  then have "binade y + 1 \<le> binade x" by simp
  then have "(2::rat) powi (binade y + 1) \<le> 2 powi binade x" by (intro power_int_increasing) simp_all
  moreover have "0 < y" using assms by simp
  ultimately show False using binade_bounds[OF assms(1)] binade_bounds[OF \<open>0 < y\<close>] assms(2) by linarith
qed

subsection \<open>Rounding to the nearest integer\<close>

lemma rne_of_int: "rne (of_int n) = n"
  by (simp add: rne_def)

lemma rne_cases:
  "rne q = \<lfloor>q\<rfloor> \<or> rne q = \<lfloor>q\<rfloor> + 1"
  by (auto simp: rne_def Let_def)

lemma rne_err: "\<bar>of_int (rne q) - q\<bar> \<le> 1/2"
proof -
  have "of_int \<lfloor>q\<rfloor> \<le> q" "q < of_int \<lfloor>q\<rfloor> + 1" by linarith+
  then show ?thesis unfolding rne_def Let_def by (auto simp: abs_le_iff) 
qed

lemma rne_near:
  assumes "\<bar>q - of_int n\<bar> < 1/2"
  shows "rne q = n"
proof -
  have "\<bar>(of_int (rne q) :: rat) - of_int n\<bar> < 1"
    using rne_err[of q] assms by linarith
  then have "\<bar>(of_int (rne q - n) :: rat)\<bar> < 1" by simp
  then have "\<bar>rne q - n\<bar> < 1"
    by (metis of_int_1 of_int_abs of_int_less_iff) 
  then show ?thesis by simp
qed

lemma rne_mono:
  assumes "q \<le> q'"
  shows "rne q \<le> rne q'"
proof -
  have fm: "\<lfloor>q\<rfloor> \<le> \<lfloor>q'\<rfloor>" using assms by (rule floor_mono)
  show ?thesis
  proof (cases "\<lfloor>q\<rfloor> = \<lfloor>q'\<rfloor>")
    case True
    then have "q - of_int \<lfloor>q\<rfloor> \<le> q' - of_int \<lfloor>q'\<rfloor>" using assms by simp
    then show ?thesis using True unfolding rne_def Let_def by auto
  next
    case False
    then have "\<lfloor>q\<rfloor> + 1 \<le> \<lfloor>q'\<rfloor>" using fm by simp
    moreover have "rne q \<le> \<lfloor>q\<rfloor> + 1" using rne_cases[of q] by auto
    moreover have "\<lfloor>q'\<rfloor> \<le> rne q'" using rne_cases[of q'] by auto
    ultimately show ?thesis by linarith
  qed
qed

subsection \<open>Rounding is monotone, exact on Numbers, and close\<close>

lemma fl_pos:
  assumes "0 < x"
  shows "fl x = of_int (rne (x / 2 powi (binade x - 52))) * 2 powi (binade x - 52)"
  using assms by (simp add: fl_def Let_def)

lemma fl_zero: "fl 0 = 0" by (simp add: fl_def)

lemma fl_minus: "fl (- x) = - fl x"
  by (simp add: fl_def Let_def)

lemma scaled_bounds:
  assumes "0 < x"
  shows "2 ^ 52 \<le> x / 2 powi (binade x - 52)" "x / 2 powi (binade x - 52) < 2 ^ 53"
proof -
  note b = binade_bounds[OF assms]
  have e: "(2::rat) powi binade x = 2 ^ 52 * 2 powi (binade x - 52)"
    by (simp add: power_int_diff)
  have e1: "(2::rat) powi (binade x + 1) = 2 ^ 53 * 2 powi (binade x - 52)"
    by (simp add: power_int_diff power_int_add)
  show "2 ^ 52 \<le> x / 2 powi (binade x - 52)"
    using b e by (simp add: pos_le_divide_eq)
  show "x / 2 powi (binade x - 52) < 2 ^ 53"
    using b e1 by (simp add: pos_divide_less_eq)
qed

lemma rne_scaled_bounds:
  assumes "0 < x"
  shows "2 ^ 52 \<le> rne (x / 2 powi (binade x - 52))" "rne (x / 2 powi (binade x - 52)) \<le> 2 ^ 53"
proof -
  have "rne (of_int (2 ^ 52)) \<le> rne (x / 2 powi (binade x - 52))"
    using scaled_bounds(1)[OF assms] by (intro rne_mono) simp
  then show "2 ^ 52 \<le> rne (x / 2 powi (binade x - 52))" by (simp only: rne_of_int)
  have "rne (x / 2 powi (binade x - 52)) \<le> rne (of_int (2 ^ 53))"
    using scaled_bounds(2)[OF assms] by (intro rne_mono) simp
  then show "rne (x / 2 powi (binade x - 52)) \<le> 2 ^ 53" by (simp only: rne_of_int)
qed

lemma fl_lower:
  assumes "0 < x"
  shows "2 powi binade x \<le> fl x"
proof -
  have "(2::rat) powi binade x = 2 ^ 52 * 2 powi (binade x - 52)"
    by (simp add: power_int_diff)
  also have "\<dots> \<le> of_int (rne (x / 2 powi (binade x - 52))) * 2 powi (binade x - 52)"
  proof (intro mult_right_mono)
    have "(of_int (2 ^ 52) :: rat) \<le> of_int (rne (x / 2 powi (binade x - 52)))"
      using rne_scaled_bounds(1)[OF assms] by (simp only: of_int_le_iff)
    then show "(2::rat) ^ 52 \<le> of_int (rne (x / 2 powi (binade x - 52)))" by simp
  qed simp
  finally show ?thesis by (simp only: fl_pos[OF assms])
qed

lemma fl_upper:
  assumes "0 < x"
  shows "fl x \<le> 2 powi (binade x + 1)"
proof -
  have "of_int (rne (x / 2 powi (binade x - 52))) * 2 powi (binade x - 52)
        \<le> (2::rat) ^ 53 * 2 powi (binade x - 52)"
  proof (intro mult_right_mono)
    have "(of_int (rne (x / 2 powi (binade x - 52))) :: rat) \<le> of_int (2 ^ 53)"
      using rne_scaled_bounds(2)[OF assms] by (simp only: of_int_le_iff)
    then show "of_int (rne (x / 2 powi (binade x - 52))) \<le> (2::rat) ^ 53" by simp
  qed simp
  also have "\<dots> = 2 powi (binade x + 1)"
    by (simp add: power_int_diff power_int_add)
  finally show ?thesis by (simp only: fl_pos[OF assms])
qed

lemma fl_pos_pos: "0 < x \<Longrightarrow> 0 < fl x"
  using fl_lower[of x] two_powi_pos[of "binade x"] by linarith

lemma fl_mono_pos:
  assumes "0 < x" "x \<le> y"
  shows "fl x \<le> fl y"
proof -
  have y: "0 < y" using assms by simp
  have le: "binade x \<le> binade y" using assms by (rule binade_mono)
  show ?thesis
  proof (cases "binade x = binade y")
    case True
    have "x / 2 powi (binade y - 52) \<le> y / 2 powi (binade y - 52)"
      using assms(2) by (simp add: divide_right_mono)
    then have "rne (x / 2 powi (binade y - 52)) \<le> rne (y / 2 powi (binade y - 52))"
      by (rule rne_mono)
    then have "(of_int (rne (x / 2 powi (binade y - 52))) :: rat)
               \<le> of_int (rne (y / 2 powi (binade y - 52)))"
      by (simp only: of_int_le_iff)
    then have "of_int (rne (x / 2 powi (binade y - 52))) * (2::rat) powi (binade y - 52)
               \<le> of_int (rne (y / 2 powi (binade y - 52))) * 2 powi (binade y - 52)"
      by (intro mult_right_mono) simp_all
    then show ?thesis using fl_pos[OF assms(1)] fl_pos[OF y] True by simp
  next
    case False
    then have "binade x + 1 \<le> binade y" using le by simp
    then have "(2::rat) powi (binade x + 1) \<le> 2 powi binade y"
      by (intro power_int_increasing) simp_all
    then show ?thesis using fl_upper[OF assms(1)] fl_lower[OF y] by linarith
  qed
qed

lemma fl_mono:
  assumes "0 \<le> x" "x \<le> y"
  shows "fl x \<le> fl y"
proof (cases "x = 0")
  case True
  show ?thesis
  proof (cases "y = 0")
    case True then show ?thesis using \<open>x = 0\<close> by simp
  next
    case False
    then have "0 < y" using assms True by simp
    then show ?thesis using fl_pos_pos[of y] True by (simp add: fl_zero)
  qed
next
  case False
  then have "0 < x" using assms by simp
  then show ?thesis using assms(2) by (rule fl_mono_pos)
qed

lemma fl_nonneg: "0 \<le> x \<Longrightarrow> 0 \<le> fl x"
  using fl_mono[of 0 x] by (simp add: fl_zero)

text \<open>Exactness on values with a significand of at most 53 bits.\<close>

lemma fl_exact_pos:
  assumes n: "0 < n" "n \<le> 2 ^ 53"
  shows "fl (of_int n * 2 powi s) = of_int n * 2 powi s"
proof -
  define x :: rat where "x = of_int n * 2 powi s"
  have x: "0 < x" using n by (simp add: x_def)
  define t where "t = binade x - 52"
  note sb = scaled_bounds[OF x, folded t_def]
  have q: "x / 2 powi t = of_int n * 2 powi (s - t)"
    by (simp add: x_def power_int_diff)
  have "\<exists>m::int. x / 2 powi t = of_int m"
  proof (cases "t \<le> s")
    case True
    then have "(2::rat) powi (s - t) = of_int (2 ^ nat (s - t))"
      by (simp add: two_powi_nat)
    then have "x / 2 powi t = of_int (n * 2 ^ nat (s - t))" using q by simp
    then show ?thesis by blast
  next
    case False
    then have st: "s - t \<le> - 1" by simp
    have "(2::rat) powi (s - t) \<le> 2 powi (- 1)"
      using st by (intro power_int_increasing) simp_all
    then have "of_int n * (2::rat) powi (s - t) \<le> of_int n * 2 powi (- 1)"
      using n by (intro mult_left_mono) simp_all
    then have "(2::rat) ^ 52 \<le> of_int n / 2" using sb(1) q by simp
    then have "(2::rat) ^ 53 \<le> of_int n" by simp
    then have "(of_int (2 ^ 53) :: rat) \<le> of_int n" by simp
    then have "2 ^ 53 \<le> n" by (simp only: of_int_le_iff)
    then have n53: "n = 2 ^ 53" using n by simp
    have "\<not> s - t < - 1"
    proof
      assume "s - t < - 1"
      then have "s - t \<le> - 2" by simp
      then have "(2::rat) powi (s - t) \<le> 2 powi (- 2)"
        by (intro power_int_increasing) simp_all
      then have "of_int n * (2::rat) powi (s - t) \<le> of_int n * 2 powi (- 2)"
        using n by (intro mult_left_mono) simp_all
      then have "(2::rat) ^ 52 \<le> of_int n * 2 powi (- 2)" using sb(1) q by simp
      then show False by (simp add: n53 power_int_minus)
    qed
    then have "s - t = - 1" using st by simp
    then have "x / 2 powi t = of_int (2 ^ 52)" using q by (simp add: n53)
    then show ?thesis by blast
  qed
  then obtain m :: int where m: "x / 2 powi t = of_int m" by blast
  have "fl x = of_int (rne (x / 2 powi t)) * 2 powi t"
    using fl_pos[OF x] by (simp add: t_def)
  also have "\<dots> = of_int m * 2 powi t" by (simp add: m rne_of_int)
  also have "\<dots> = x / 2 powi t * 2 powi t" by (simp add: m)
  also have "\<dots> = x" by simp
  finally show ?thesis by (simp add: x_def)
qed

lemma fl_exact:
  assumes "\<bar>n\<bar> \<le> 2 ^ 53"
  shows "fl (of_int n * 2 powi s) = of_int n * 2 powi s"
proof -
  consider "n = 0" | "0 < n" | "n < 0" by linarith
  then show ?thesis
  proof cases
    case 1 then show ?thesis by (simp add: fl_zero)
  next
    case 2 then show ?thesis using assms by (intro fl_exact_pos) simp_all
  next
    case 3
    then have "fl (of_int (- n) * 2 powi s) = of_int (- n) * 2 powi s"
      using assms by (intro fl_exact_pos) simp_all
    then show ?thesis using fl_minus[of "of_int n * 2 powi s"] by simp
  qed
qed

lemma fl_of_int:
  assumes "\<bar>n\<bar> \<le> 2 ^ 53"
  shows "fl (of_int n) = of_int n"
  using fl_exact[OF assms, of 0] by simp

text \<open>The rounding error is at most half a unit in the last place.\<close>

lemma fl_err:
  assumes "0 < x"
  shows "\<bar>fl x - x\<bar> \<le> 2 powi (binade x - 53)"
proof -
  define t where "t = binade x - 52"
  define q where "q = x / 2 powi t"
  have x: "x = q * 2 powi t" by (simp add: q_def)
  have "fl x - x = (of_int (rne q) - q) * 2 powi t"
    using fl_pos[OF assms] by (simp add: t_def[symmetric] q_def[symmetric] algebra_simps x[symmetric])
  then have "\<bar>fl x - x\<bar> = \<bar>of_int (rne q) - q\<bar> * 2 powi t"
    by (simp add: abs_mult)
  also have "\<dots> \<le> 1/2 * 2 powi t"
    using rne_err[of q] by (intro mult_right_mono) simp_all
  also have "\<dots> = 2 powi (binade x - 53)"
    by (simp add: t_def power_int_diff)
  finally show ?thesis .
qed

lemma fl_err_below:
  assumes "0 < x" "x < 2 powi k"
  shows "\<bar>fl x - x\<bar> \<le> 2 powi (k - 54)"
proof -
  have "\<not> k \<le> binade x"
  proof
    assume "k \<le> binade x"
    then have "(2::rat) powi k \<le> 2 powi binade x" by (intro power_int_increasing) simp_all
    then show False using binade_bounds[OF assms(1)] assms(2) by linarith
  qed
  then have "binade x - 53 \<le> k - 54" by simp
  then have "(2::rat) powi (binade x - 53) \<le> 2 powi (k - 54)"
    by (intro power_int_increasing) simp_all
  then show ?thesis using fl_err[OF assms(1)] by linarith
qed

text \<open>A value just below a Number rounds up to it.\<close>

lemma fl_near_below:
  assumes v: "v = of_int n * 2 powi s" and n: "2 ^ 52 \<le> n" "n < 2 ^ 53"
    and xv: "x \<le> v" and d: "(v - x) * 2 ^ 54 < v"
  shows "fl x = v"
proof -
  have nr: "(2::rat) ^ 52 \<le> of_int n" "(of_int n :: rat) < 2 ^ 53"
  proof -
    have "(of_int (2 ^ 52) :: rat) \<le> of_int n" using n(1) by (simp only: of_int_le_iff)
    then show "(2::rat) ^ 52 \<le> of_int n" by simp
    have "(of_int n :: rat) < of_int (2 ^ 53)" using n(2) by (simp only: of_int_less_iff)
    then show "(of_int n :: rat) < 2 ^ 53" by simp
  qed
  have ps: "0 < (2::rat) powi s" by simp
  have vpos: "0 < v" using nr ps by (simp add: v)
  define q where "q = x / 2 powi s"
  have xq: "x = q * 2 powi s" by (simp add: q_def)
  have "(of_int n * 2 powi s - q * 2 powi s) * 2 ^ 54 < of_int n * 2 powi s"
    using d by (simp add: v xq)
  then have "((of_int n - q) * 2 ^ 54) * 2 powi s < of_int n * 2 powi s"
    by (simp add: algebra_simps)
  then have dq: "(of_int n - q) * 2 ^ 54 < of_int n"
    using ps by (simp only: mult_less_cancel_right_pos)
  have qn: "q \<le> of_int n"
  proof -
    have "q * 2 powi s \<le> of_int n * 2 powi s" using xv by (simp add: v xq)
    then show ?thesis using ps by (simp only: mult_le_cancel_right_pos)
  qed
  have dq4: "of_int n - q < 1 / 2"
    using dq nr(2) by simp
  show ?thesis
  proof (cases "n = 2 ^ 52")
    case False
    then have "2 ^ 52 + 1 \<le> n" using n(1) by simp
    then have "(of_int (2 ^ 52 + 1) :: rat) \<le> of_int n" by (simp only: of_int_le_iff)
    then have n1: "(2::rat) ^ 52 + 1 \<le> of_int n" by simp
    have q1: "2 ^ 52 \<le> q" "q < 2 ^ 53" using n1 dq4 qn nr(2) by linarith+
    have "(2::rat) powi (52 + s) = 2 ^ 52 * 2 powi s" by (simp add: power_int_add)
    moreover have "(2::rat) powi (52 + s + 1) = 2 ^ 53 * 2 powi s" by (simp add: power_int_add)
    moreover have "2 ^ 52 * 2 powi s \<le> q * 2 powi s" using q1(1) ps by (simp only: mult_le_cancel_right_pos)
    moreover have "q * 2 powi s < 2 ^ 53 * 2 powi s" using q1(2) ps by (simp only: mult_less_cancel_right_pos)
    ultimately have b: "binade x = 52 + s" by (intro binade_eqI) (simp_all add: xq)
    have xpos: "0 < x" using q1(1) ps by (simp add: xq)
    have "rne q = n" using dq4 qn by (intro rne_near) simp
    then show ?thesis using fl_pos[OF xpos] by (simp add: b q_def[symmetric] v)
  next
    case True
    show ?thesis
    proof (cases "x = v")
      case True
      have "fl (of_int n * 2 powi s) = of_int n * 2 powi s"
        using n by (intro fl_exact) simp
      then show ?thesis using True v by simp
    next
      case False
      then have qlt: "q < of_int n" using qn by (auto simp: v xq)
      have nq: "(of_int n :: rat) = 2 ^ 52" by (simp add: True)
      have dq': "2 ^ 52 - q < 1 / 4" using dq by (simp add: nq)
      have q1: "2 ^ 51 \<le> q" "q < 2 ^ 52" using dq' qlt nq by simp_all
      have "(2::rat) powi (51 + s) = 2 ^ 51 * 2 powi s" by (simp add: power_int_add)
      moreover have "(2::rat) powi (51 + s + 1) = 2 ^ 52 * 2 powi s" by (simp add: power_int_add)
      moreover have "2 ^ 51 * 2 powi s \<le> q * 2 powi s" using q1(1) ps by (simp only: mult_le_cancel_right_pos)
      moreover have "q * 2 powi s < 2 ^ 52 * 2 powi s" using q1(2) ps by (simp only: mult_less_cancel_right_pos)
      ultimately have b: "binade x = 51 + s" by (intro binade_eqI) (simp_all add: xq)
      have xpos: "0 < x" using q1(1) ps by (simp add: xq)
      have sc: "x / 2 powi (s - 1) = 2 * q"
        by (simp add: xq power_int_diff)
      have "\<bar>2 * q - of_int (2 ^ 53)\<bar> < 1 / 2" using dq' q1(2) by simp
      then have "rne (2 * q) = 2 ^ 53" by (rule rne_near)
      then have "fl x = 2 ^ 53 * 2 powi (s - 1)"
        using fl_pos[OF xpos] by (simp add: b sc)
      also have "\<dots> = 2 ^ 52 * 2 powi s" by (simp add: power_int_diff)
      finally show ?thesis by (simp add: v nq)
    qed
  qed
qed

lemma int_repr:
  assumes "0 < k" "k < 2 ^ 53"
  shows "\<exists>n s. (of_int k :: rat) = of_int n * 2 powi s \<and> 2 ^ 52 \<le> n \<and> n < 2 ^ 53"
proof -
  define x :: rat where "x = of_int k"
  have x: "0 < x" using assms by (simp add: x_def)
  define s where "s = binade x - 52"
  have "\<not> 53 \<le> binade x"
  proof
    assume "53 \<le> binade x"
    then have "(2::rat) powi 53 \<le> 2 powi binade x" by (intro power_int_increasing) simp_all
    then have "(2::rat) ^ 53 \<le> x" using binade_bounds[OF x] by simp
    then have "(of_int (2 ^ 53) :: rat) \<le> of_int k" by (simp add: x_def)
    then have "2 ^ 53 \<le> k" by (simp only: of_int_le_iff)
    then show False using assms by simp
  qed
  then have s0: "s \<le> 0" by (simp add: s_def)
  define n where "n = k * 2 ^ nat (- s)"
  have p: "(2::rat) powi s = 1 / 2 ^ nat (- s)"
    using s0 by (simp add: power_int_def field_simps)
  have sc: "x / 2 powi s = of_int n"
    by (simp add: n_def x_def p)
  note sb = scaled_bounds[OF x, folded s_def]
  have "(of_int (2 ^ 52) :: rat) \<le> of_int n" using sb(1) sc by simp
  then have n1: "2 ^ 52 \<le> n" by (simp only: of_int_le_iff)
  have "(of_int n :: rat) < of_int (2 ^ 53)" using sb(2) sc by simp
  then have n2: "n < 2 ^ 53" by (simp only: of_int_less_iff)
  have "x = of_int n * 2 powi s" using sc by (simp add: field_simps)
  then show ?thesis using n1 n2 unfolding x_def by blast
qed

lemma fl_near_below_int:
  assumes "0 < k" "k < 2 ^ 53" "x \<le> of_int k" "(of_int k - x) * 2 ^ 54 < of_int k"
  shows "fl x = of_int k"
proof -
  obtain n s where "(of_int k :: rat) = of_int n * 2 powi s" "2 ^ 52 \<le> n" "n < 2 ^ 53"
    using int_repr[OF assms(1,2)] by blast
  then show ?thesis using assms(3,4) by (intro fl_near_below[where n = n and s = s])
qed

lemma is_double_repr:
  assumes "0 < x" "is_double x"
  shows "\<exists>n s. x = of_int n * 2 powi s \<and> 2 ^ 52 \<le> n \<and> n \<le> 2 ^ 53"
proof -
  have "x = of_int (rne (x / 2 powi (binade x - 52))) * 2 powi (binade x - 52)"
    using assms fl_pos[OF assms(1)] by (simp add: is_double_def)
  then show ?thesis using rne_scaled_bounds[OF assms(1)] by blast
qed

lemma is_double_int: "\<bar>n\<bar> \<le> 2 ^ 53 \<Longrightarrow> is_double (of_int n)"
  by (simp add: is_double_def fl_of_int)

subsection \<open>The rate literals\<close>

lemma rate_10: "10 * fl (10 / 100) = 1 + 1 / 2 ^ 54" by code_simp
lemma rate_15: "20 * fl (15 / 100) = 3 - 1 / 2 ^ 53" by code_simp
lemma rate_30: "10 * fl (30 / 100) = 3 - 1 / 2 ^ 53" by code_simp
lemma rate_35: "20 * fl (35 / 100) = 7 - 1 / 2 ^ 51" by code_simp
lemma rate_40: "10 * fl (40 / 100) = 4 + 1 / 2 ^ 52" by code_simp
lemma rate_45: "20 * fl (45 / 100) = 9 + 1 / 2 ^ 52" by code_simp
lemma rate_50: "fl (50 / 100) = 1 / 2" by code_simp
lemma rate_25: "fl (25 / 100) = 1 / 4" by code_simp

subsection \<open>The floor of a rounded product\<close>

text \<open>
  For an integer amount \<open>u\<close> and a rate \<open>c\<close> that is the Number nearest to \<open>a / b\<close>, the floor
  of the rounded product \<open>u * c\<close> is the exact \<open>u * a div b\<close> as long as the product is small
  enough for the rounding error to stay inside the gap to the next integer: when the
  rate lies above \<open>a / b\<close> (\<open>floor_fl_above\<close>), and when it lies below by little enough
  (\<open>floor_fl_below\<close>).
\<close>

lemma small_err:
  assumes "0 < x" "x < 2 ^ 49"
  shows "fl x \<le> x + 1 / 32"
proof -
  have "x < 2 powi 49" using assms(2) by simp
  then have "\<bar>fl x - x\<bar> \<le> 2 powi (49 - 54)" using assms(1) by (intro fl_err_below)
  moreover have "(2::rat) powi (49 - 54) = 1 / 32" by (simp add: power_int_minus_divide)
  ultimately have "\<bar>fl x - x\<bar> \<le> 1 / 32" by (simp only:)
  then show ?thesis by linarith
qed

lemma mid_err:
  assumes "0 < x" "x < 2 ^ 50"
  shows "fl x \<le> x + 1 / 16"
proof -
  have "x < 2 powi 50" using assms(2) by simp
  then have "\<bar>fl x - x\<bar> \<le> 2 powi (50 - 54)" using assms(1) by (intro fl_err_below)
  moreover have "(2::rat) powi (50 - 54) = 1 / 16" by (simp add: power_int_minus_divide)
  ultimately have "\<bar>fl x - x\<bar> \<le> 1 / 16" by (simp only:)
  then show ?thesis by linarith
qed

lemma floor_fl_above:
  fixes u a b :: int and c d :: rat
  assumes u: "0 \<le> u"
    and ab: "0 < a" "0 < b"
    and c: "of_int b * c = of_int a + d"
    and d: "0 \<le> d" "32 * (of_int u * d) + of_int b \<le> 31"
    and x49: "of_int u * c < 2 ^ 49"
  shows "\<lfloor>fl (of_int u * c)\<rfloor> = (u * a) div b"
proof (cases "u = 0")
  case True
  then show ?thesis by (simp add: fl_zero)
next
  case False
  then have upos: "0 < u" using u by simp
  define k where "k = (u * a) div b"
  define s where "s = (u * a) mod b"
  define x where "x = of_int u * c"
  have ua: "u * a = b * k + s" by (simp add: k_def s_def)
  have s: "0 \<le> s" "s \<le> b - 1" using ab by (simp_all add: s_def)
  have bq: "(0::rat) < of_int b" using ab by simp
  have ur: "(0::rat) < of_int u" using upos by simp
  have bx: "of_int b * x = of_int b * of_int k + of_int s + of_int u * d"
  proof -
    have "of_int b * x = of_int u * (of_int b * c)" by (simp add: x_def)
    also have "\<dots> = of_int (u * a) + of_int u * d" unfolding c by (simp add: algebra_simps)
    finally show ?thesis by (simp add: ua)
  qed
  have ud: "0 \<le> of_int u * d" using ur d(1) by simp
  have k0: "0 \<le> k" using u ab by (simp add: k_def pos_imp_zdiv_nonneg_iff)
  have cpos: "0 < c"
  proof -
    have "0 < of_int b * c" using ab d(1) by (simp add: c add_pos_nonneg)
    then show ?thesis using bq by (simp add: zero_less_mult_iff)
  qed
  have xpos: "0 < x" using ur cpos by (simp add: x_def)
  have x49': "x < 2 ^ 49" using x49 by (simp add: x_def)
  have lo: "of_int k \<le> x"
  proof -
    have "of_int b * of_int k \<le> of_int b * x" using bx s ud by simp
    then show ?thesis using bq by (simp only: mult_le_cancel_left_pos)
  qed
  have kx: "(of_int k :: rat) < 2 ^ 49" using lo x49' by linarith
  then have "(of_int k :: rat) < of_int (2 ^ 49)" by simp
  then have "k < 2 ^ 49" by (simp only: of_int_less_iff)
  then have kabs: "\<bar>k\<bar> \<le> 2 ^ 53" using k0 by simp
  have "fl (of_int k) \<le> fl x" using k0 lo by (intro fl_mono) simp_all
  then have lo': "of_int k \<le> fl x" by (simp add: fl_of_int[OF kabs])
  have up: "x + 1 / 32 < of_int k + 1"
  proof -
    have "(of_int s :: rat) \<le> of_int (b - 1)" using s(2) by (simp only: of_int_le_iff)
    then have "(of_int s :: rat) \<le> of_int b - 1" by simp
    then have "32 * (of_int b * x) + of_int b < 32 * (of_int b * of_int k) + 32 * of_int b"
      using bx d(2) by linarith
    then have "of_int b * (32 * x + 1) < of_int b * (32 * of_int k + 32)"
      by (simp add: algebra_simps)
    then have "32 * x + 1 < 32 * of_int k + 32" using bq by (simp only: mult_less_cancel_left_pos)
    then show ?thesis by simp
  qed
  have "fl x < of_int k + 1" using small_err[OF xpos x49'] up by linarith
  then have "\<lfloor>fl x\<rfloor> = k" using lo' by (intro floor_unique) simp_all
  then show ?thesis by (simp add: x_def k_def)
qed

lemma floor_fl_below:
  fixes u a b :: int and c d :: rat
  assumes u: "0 \<le> u"
    and ab: "0 < a" "0 < b" "b < 32"
    and c: "of_int b * c = of_int a - d"
    and d: "0 \<le> d" "of_int u * d \<le> 1" "2 ^ 54 * d < of_int a"
    and x: "of_int u * c < 2 ^ 49
            \<or> (of_int u * c < 2 ^ 50 \<and> of_int b < 16 + 16 * (of_int u * d))"
  shows "\<lfloor>fl (of_int u * c)\<rfloor> = (u * a) div b"
proof (cases "u = 0")
  case True
  then show ?thesis by (simp add: fl_zero)
next
  case False
  then have upos: "0 < u" using u by simp
  define k where "k = (u * a) div b"
  define s where "s = (u * a) mod b"
  define x where "x = of_int u * c"
  have ua: "u * a = b * k + s" by (simp add: k_def s_def)
  have s: "0 \<le> s" "s \<le> b - 1" using ab by (simp_all add: s_def)
  have bq: "(0::rat) < of_int b" using ab by simp
  have ur: "(0::rat) < of_int u" using upos by simp
  have bx: "of_int b * x = of_int b * of_int k + of_int s - of_int u * d"
  proof -
    have "of_int b * x = of_int u * (of_int b * c)" by (simp add: x_def)
    also have "\<dots> = of_int (u * a) - of_int u * d" unfolding c by (simp add: algebra_simps)
    finally show ?thesis by (simp add: ua)
  qed
  have ud: "0 \<le> of_int u * d" using ur d(1) by simp
  have k0: "0 \<le> k" using u ab by (simp add: k_def pos_imp_zdiv_nonneg_iff)
  have dlt: "d < of_int a"
  proof -
    have "1 * d \<le> 2 ^ 54 * d" using d(1) by (intro mult_right_mono) simp_all
    then show ?thesis using d(3) by simp
  qed
  have cpos: "0 < c"
  proof -
    have "0 < of_int b * c" using dlt by (simp add: c)
    then show ?thesis using bq by (simp add: zero_less_mult_iff)
  qed
  have xpos: "0 < x" using ur cpos by (simp add: x_def)
  have x50: "x < 2 ^ 50" using x unfolding x_def by auto
  have sb: "(of_int s :: rat) \<le> of_int b - 1"
  proof -
    have "(of_int s :: rat) \<le> of_int (b - 1)" using s(2) by (simp only: of_int_le_iff)
    then show ?thesis by simp
  qed
  have up: "fl x < of_int k + 1"
  proof -
    from x consider (lo) "x < 2 ^ 49" | (hi) "x < 2 ^ 50" "of_int b < 16 + 16 * (of_int u * d)"
      unfolding x_def by auto
    then show ?thesis
    proof cases
      case lo
      have "(of_int b :: rat) < of_int 32" using ab(3) by (simp only: of_int_less_iff)
      then have "32 * (of_int b * x) + of_int b < 32 * (of_int b * of_int k) + 32 * of_int b"
        using bx sb ud by simp
      then have "of_int b * (32 * x + 1) < of_int b * (32 * of_int k + 32)"
        by (simp add: algebra_simps)
      then have "32 * x + 1 < 32 * of_int k + 32" using bq by (simp only: mult_less_cancel_left_pos)
      then show ?thesis using small_err[OF xpos lo] by linarith
    next
      case hi
      have "16 * (of_int b * x) + of_int b < 16 * (of_int b * of_int k) + 16 * of_int b"
        using bx sb hi(2) by linarith
      then have "of_int b * (16 * x + 1) < of_int b * (16 * of_int k + 16)"
        by (simp add: algebra_simps)
      then have "16 * x + 1 < 16 * of_int k + 16" using bq by (simp only: mult_less_cancel_left_pos)
      then show ?thesis using mid_err[OF xpos hi(1)] by linarith
    qed
  qed
  have k1: "(of_int k :: rat) < 2 ^ 50 + 1"
  proof -
    have "of_int b * of_int k \<le> of_int b * x + of_int u * d" using bx s by simp
    also have "\<dots> \<le> of_int b * x + 1" using d(2) by simp
    also have "\<dots> \<le> of_int b * x + of_int b"
    proof -
      have "(of_int 1 :: rat) \<le> of_int b" using ab(2) by (simp only: of_int_le_iff)
      then show ?thesis by simp
    qed
    also have "\<dots> = of_int b * (x + 1)" by (simp add: algebra_simps)
    finally have "of_int k \<le> x + 1" using bq by (simp only: mult_le_cancel_left_pos)
    then show ?thesis using x50 by linarith
  qed
  then have "(of_int k :: rat) < of_int (2 ^ 50 + 1)" by simp
  then have k50: "k < 2 ^ 50 + 1" by (simp only: of_int_less_iff)
  then have kabs: "\<bar>k\<bar> \<le> 2 ^ 53" using k0 by simp
  have "\<lfloor>fl x\<rfloor> = k"
  proof (cases "s = 0")
    case False
    then have "1 \<le> s" using s by simp
    then have "(of_int 1 :: rat) \<le> of_int s" by (simp only: of_int_le_iff)
    then have "of_int b * of_int k \<le> of_int b * x" using bx d(2) by simp
    then have lo: "of_int k \<le> x" using bq by (simp only: mult_le_cancel_left_pos)
    have "fl (of_int k) \<le> fl x" using k0 lo by (intro fl_mono) simp_all
    then have lo': "of_int k \<le> fl x" by (simp add: fl_of_int[OF kabs])
    show ?thesis using lo' up by (intro floor_unique) simp_all
  next
    case True
    have uak: "u * a = b * k" using ua True by simp
    have kpos: "0 < k"
    proof (rule ccontr)
      assume "\<not> 0 < k"
      then have "k = 0" using k0 by simp
      then have "u * a = 0" using uak by simp
      then show False using upos ab by simp
    qed
    have bx0: "of_int b * x = of_int b * of_int k - of_int u * d" using bx True by simp
    have le: "x \<le> of_int k"
    proof -
      have "of_int b * x \<le> of_int b * of_int k" using bx0 ud by simp
      then show ?thesis using bq by (simp only: mult_le_cancel_left_pos)
    qed
    have near: "(of_int k - x) * 2 ^ 54 < of_int k"
    proof -
      have "of_int b * ((of_int k - x) * 2 ^ 54) = of_int u * (2 ^ 54 * d)"
        using bx0 by (simp add: algebra_simps)
      also have "\<dots> < of_int u * of_int a" using d(3) ur by (simp only: mult_less_cancel_left_pos)
      also have "\<dots> = of_int (u * a)" by simp
      also have "\<dots> = of_int b * of_int k" by (simp add: uak)
      finally show ?thesis using bq by (simp only: mult_less_cancel_left_pos)
    qed
    have "k < 2 ^ 53" using k50 by simp
    then have "fl x = of_int k" using kpos le near by (intro fl_near_below_int)
    then show ?thesis by simp
  qed
  then show ?thesis by (simp add: x_def k_def)
qed

subsection \<open>Halves and quarters\<close>

lemma is_doubleI:
  assumes "\<bar>n\<bar> \<le> 2 ^ 53"
  shows "is_double (of_int n * 2 powi s)"
  using fl_exact[OF assms] by (simp add: is_double_def)

lemma is_double_half:
  assumes "0 \<le> x" "is_double x"
  shows "fl (x * (1 / 2)) = x / 2"
proof (cases "x = 0")
  case True then show ?thesis by (simp add: fl_zero)
next
  case False
  then have "0 < x" using assms by simp
  then obtain n s where r: "x = of_int n * 2 powi s" "2 ^ 52 \<le> n" "n \<le> 2 ^ 53"
    using is_double_repr assms(2) by blast
  have "x * (1 / 2) = of_int n * 2 powi (s - 1)"
    by (simp add: r(1) power_int_diff)
  moreover have "fl (of_int n * 2 powi (s - 1)) = of_int n * 2 powi (s - 1)"
    using r by (intro fl_exact) simp
  ultimately show ?thesis by simp
qed

lemma is_double_quarter:
  assumes "0 \<le> x" "is_double x"
  shows "fl (x * (1 / 4)) = x / 4"
proof (cases "x = 0")
  case True then show ?thesis by (simp add: fl_zero)
next
  case False
  then have "0 < x" using assms by simp
  then obtain n s where r: "x = of_int n * 2 powi s" "2 ^ 52 \<le> n" "n \<le> 2 ^ 53"
    using is_double_repr assms(2) by blast
  have "x * (1 / 4) = of_int n * 2 powi (s - 2)"
    by (simp add: r(1) power_int_diff)
  moreover have "fl (of_int n * 2 powi (s - 2)) = of_int n * 2 powi (s - 2)"
    using r by (intro fl_exact) simp
  ultimately show ?thesis by simp
qed

lemma fl_int_pow:
  assumes "\<bar>n\<bar> \<le> 2 ^ 53"
  shows "fl (of_int (n * 2 ^ m)) = of_int (n * 2 ^ m)"
  using fl_exact[OF assms, of "int m"] by simp

lemma double_int_cases:
  assumes "0 < u" "is_double (of_int u)"
  shows "u \<le> 2 ^ 53 \<or> (\<exists>n m. u = n * 2 ^ Suc m \<and> 0 < n \<and> n \<le> 2 ^ 53)"
proof -
  obtain n s where r: "(of_int u :: rat) = of_int n * 2 powi s" "2 ^ 52 \<le> n" "n \<le> 2 ^ 53"
    using is_double_repr[of "of_int u"] assms by auto
  have npos: "0 < n" using r(2) by simp
  show ?thesis
  proof (cases "s \<le> 0")
    case True
    then have "(2::rat) powi s \<le> 2 powi 0" by (intro power_int_increasing) simp_all
    then have "of_int n * (2::rat) powi s \<le> of_int n * 1"
      using npos by (intro mult_left_mono) simp_all
    then have "(of_int u :: rat) \<le> of_int n" using r(1) by simp
    then have "u \<le> n" by (simp only: of_int_le_iff)
    then show ?thesis using r(3) by simp
  next
    case False
    then obtain m where m: "nat s = Suc m" by (cases "nat s") auto
    have "(2::rat) powi s = 2 ^ nat s" using False by (simp add: two_powi_nat)
    then have "(of_int u :: rat) = of_int (n * 2 ^ Suc m)" using r(1) m by simp
    then have "u = n * 2 ^ Suc m" by (simp only: of_int_eq_iff)
    then show ?thesis using npos r(3) by blast
  qed
qed

lemma sub_half_exact:
  assumes "0 \<le> u" "is_double (of_int u)"
  shows "fl (of_int u - of_int (u div 2)) = of_int (u - u div 2)"
    and "fl (of_int (u - u div 2) - of_int (u div 4)) = of_int (u - u div 2 - u div 4)"
proof -
  have "fl (of_int (u - u div 2)) = of_int (u - u div 2)
        \<and> fl (of_int (u - u div 2 - u div 4)) = of_int (u - u div 2 - u div 4)"
  proof (cases "u = 0")
    case True then show ?thesis by (simp add: fl_zero)
  next
    case False
    then have "0 < u" using assms by simp
    then consider (small) "u \<le> 2 ^ 53"
      | (big) n m where "u = n * 2 ^ Suc m" "0 < n" "n \<le> 2 ^ 53"
      using double_int_cases[OF _ assms(2)] by blast
    then show ?thesis
    proof cases
      case small
      have dv: "0 \<le> u div 2" "2 * (u div 2) \<le> u" "0 \<le> u div 4" "4 * (u div 4) \<le> u"
        using assms(1) by linarith+
      have "\<bar>u - u div 2\<bar> \<le> 2 ^ 53" "\<bar>u - u div 2 - u div 4\<bar> \<le> 2 ^ 53"
        using small dv by linarith+
      then show ?thesis by (simp only: fl_of_int)
    next
      case big
      show ?thesis
      proof (cases m)
        case 0
        then have u2: "u = 2 * n" using big by simp
        have "u - u div 2 = n" by (simp add: u2)
        moreover have "\<bar>n\<bar> \<le> 2 ^ 53" using big by simp
        moreover have "u - u div 2 - u div 4 = n - n div 2" by (simp add: u2)
        moreover have "0 \<le> n - n div 2" "n - n div 2 \<le> n" using big(2) by linarith+
        then have "\<bar>n - n div 2\<bar> \<le> 2 ^ 53" using big(3) by linarith
        ultimately show ?thesis by (simp only: fl_of_int)
      next
        case (Suc k)
        then have u4: "u = 4 * (n * 2 ^ k)" using big by simp
        have a: "u - u div 2 = n * 2 ^ Suc k" by (simp add: u4)
        have b: "u - u div 2 - u div 4 = n * 2 ^ k" by (simp add: u4)
        have n: "\<bar>n\<bar> \<le> 2 ^ 53" using big by simp
        have "fl (of_int (u - u div 2)) = of_int (u - u div 2)"
          unfolding a by (rule fl_int_pow[OF n])
        moreover have "fl (of_int (u - u div 2 - u div 4)) = of_int (u - u div 2 - u div 4)"
          unfolding b by (rule fl_int_pow[OF n])
        ultimately show ?thesis by (rule conjI)
      qed
    qed
  qed
  then show "fl (of_int u - of_int (u div 2)) = of_int (u - u div 2)"
    and "fl (of_int (u - u div 2) - of_int (u div 4)) = of_int (u - u div 2 - u div 4)"
    by simp_all
qed

lemma sponsorshipSplit_exact:
  assumes "0 \<le> u" "is_double (of_int u)"
  shows "sponsorshipSplit (of_int u) =
           \<lparr>collaborator = of_int (u div 2), seller = of_int (u div 4),
            retained = of_int (u - u div 2 - u div 4)\<rparr>"
proof -
  have x: "(0::rat) \<le> of_int u" using assms(1) by simp
  have h: "Math_floor (js_mul (of_int u) (fl (50 / 100))) = of_int (u div 2)"
  proof -
    have "\<lfloor>(of_int u :: rat) / of_int 2\<rfloor> = u div 2" by (rule floor_divide_of_int_eq)
    then show ?thesis
      unfolding Math_floor_def js_mul_def rate_50 is_double_half[OF x assms(2)] by simp
  qed
  have q: "Math_floor (js_mul (of_int u) (fl (25 / 100))) = of_int (u div 4)"
  proof -
    have "\<lfloor>(of_int u :: rat) / of_int 4\<rfloor> = u div 4" by (rule floor_divide_of_int_eq)
    then show ?thesis
      unfolding Math_floor_def js_mul_def rate_25 is_double_quarter[OF x assms(2)] by simp
  qed
  show ?thesis
    unfolding sponsorshipSplit_def Let_def h q js_sub_def
    by (simp only: sub_half_exact[OF assms])
qed

text \<open>The same for a Number that is not an integer.\<close>

lemma sub_floor_exact:
  assumes x: "x = of_int n * 2 powi s" and n: "0 < n" "n \<le> 2 ^ 53" and s: "s < 0"
    and c: "0 \<le> c" "of_int c \<le> x"
  shows "fl (x - of_int c) = x - of_int c"
proof -
  define k where "k = nat (- s)"
  have p: "(2::rat) powi s = 1 / 2 ^ k"
    using s by (simp add: k_def power_int_def field_simps)
  define m where "m = n - c * 2 ^ k"
  have e: "x - of_int c = of_int m * 2 powi s"
    by (simp add: x m_def p field_simps)
  have ps: "(0::rat) < 2 powi s" by simp
  have "0 \<le> of_int m * (2::rat) powi s" using c(2) e by simp
  then have "(0::rat) \<le> of_int m" using ps by (simp add: zero_le_mult_iff)
  then have m0: "0 \<le> m" by simp
  have "m \<le> n" using c(1) by (simp add: m_def)
  then have "\<bar>m\<bar> \<le> 2 ^ 53" using m0 n by simp
  then have "fl (of_int m * 2 powi s) = of_int m * 2 powi s" by (rule fl_exact)
  then show ?thesis by (simp only: e)
qed

lemma sponsorshipSplit_double:
  assumes "0 \<le> x" "is_double x"
  shows "sponsorshipSplit x =
           \<lparr>collaborator = of_int \<lfloor>x / 2\<rfloor>, seller = of_int \<lfloor>x / 4\<rfloor>,
            retained = x - of_int \<lfloor>x / 2\<rfloor> - of_int \<lfloor>x / 4\<rfloor>\<rparr>"
proof (cases "x = 0")
  case True
  then show ?thesis
    by (simp add: sponsorshipSplit_def Math_floor_def js_mul_def js_sub_def fl_zero)
next
  case False
  then have xpos: "0 < x" using assms by simp
  obtain n s where r: "x = of_int n * 2 powi s" "2 ^ 52 \<le> n" "n \<le> 2 ^ 53"
    using is_double_repr[OF xpos assms(2)] by blast
  have npos: "0 < n" using r(2) by simp
  show ?thesis
  proof (cases "s < 0")
    case False
    then have "(2::rat) powi s = of_int (2 ^ nat s)" by (simp add: two_powi_nat)
    then have xu: "x = of_int (n * 2 ^ nat s)" using r(1) by simp
    define u where "u = n * 2 ^ nat s"
    have u0: "0 \<le> u" using npos by (simp add: u_def)
    have du: "is_double (of_int u)" using assms(2) xu by (simp add: u_def)
    have h: "\<lfloor>(of_int u :: rat) / of_int 2\<rfloor> = u div 2" by (rule floor_divide_of_int_eq)
    have q: "\<lfloor>(of_int u :: rat) / of_int 4\<rfloor> = u div 4" by (rule floor_divide_of_int_eq)
    have "sponsorshipSplit (of_int u) =
           \<lparr>collaborator = of_int \<lfloor>(of_int u :: rat) / 2\<rfloor>, seller = of_int \<lfloor>(of_int u :: rat) / 4\<rfloor>,
            retained = of_int u - of_int \<lfloor>(of_int u :: rat) / 2\<rfloor> - of_int \<lfloor>(of_int u :: rat) / 4\<rfloor>\<rparr>"
      using sponsorshipSplit_exact[OF u0 du] h q by simp
    then show ?thesis using xu by (simp add: u_def)
  next
    case True
    define c where "c = \<lfloor>x / 2\<rfloor>"
    define q where "q = \<lfloor>x / 4\<rfloor>"
    have c: "0 \<le> c" "of_int c \<le> x / 2"
    proof -
      show "0 \<le> c" using xpos unfolding c_def by simp
      show "of_int c \<le> x / 2" unfolding c_def by (rule of_int_floor_le)
    qed
    have q: "0 \<le> q" "of_int q \<le> x / 4"
    proof -
      show "0 \<le> q" using xpos unfolding q_def by simp
      show "of_int q \<le> x / 4" unfolding q_def by (rule of_int_floor_le)
    qed
    have cx: "of_int c \<le> x" using c(2) xpos by linarith
    have s1: "fl (x - of_int c) = x - of_int c"
      using r(1) npos r(3) True c(1) cx by (rule sub_floor_exact)
    have cq: "of_int (c + q) \<le> x" using c(2) q(2) xpos by simp
    have "fl (x - of_int (c + q)) = x - of_int (c + q)"
      using r(1) npos r(3) True _ cq by (rule sub_floor_exact) (use c q in simp)
    then have s2: "fl (x - of_int c - of_int q) = x - of_int c - of_int q"
      by (simp add: algebra_simps)
    have a: "Math_floor (js_mul x (fl (50 / 100))) = of_int c"
      unfolding Math_floor_def js_mul_def rate_50 is_double_half[OF assms] c_def by simp
    have b: "Math_floor (js_mul x (fl (25 / 100))) = of_int q"
      unfolding Math_floor_def js_mul_def rate_25 is_double_quarter[OF assms] q_def by simp
    show ?thesis
      unfolding sponsorshipSplit_def Let_def a b js_sub_def s1 s2
      by (simp add: c_def q_def)
  qed
qed

subsection \<open>The ladder, evaluated\<close>

lemma floor_ratio:
  "\<lfloor>(of_int u :: rat) * (of_int a / of_int b)\<rfloor> = (u * a) div b"
proof -
  have "(of_int u :: rat) * (of_int a / of_int b) = of_int (u * a) / of_int b" by simp
  then show ?thesis by (simp only: floor_divide_of_int_eq)
qed

lemma splitLvUv_ladder_values:
  "list_all (\<lambda>f. splitLvUv f = Inr \<lparr>lv = f / 10, uv = f - f / 10\<rparr>) NFT_FACE_VALUE_LADDER"
  by code_simp

lemma ladder_round:
  "list_all (\<lambda>f. of_int (round (f * (10 / 100))) = f / 10) NFT_FACE_VALUE_LADDER"
  by code_simp

lemma ladder_tenfold:
  "list_all (\<lambda>f. f = of_int (10 * \<lfloor>f / 10\<rfloor>)) NFT_FACE_VALUE_LADDER"
  by code_simp

subsection \<open>The rates of the constitution\<close>

lemma amount_bound:
  fixes u :: int
  assumes "0 \<le> u" "u < 2 ^ n"
  shows "(0::rat) \<le> of_int u" "(of_int u :: rat) < 2 ^ n"
proof -
  show "(0::rat) \<le> of_int u" using assms(1) by simp
  have "(of_int u :: rat) < of_int (2 ^ n)" using assms(2) by (simp only: of_int_less_iff)
  then show "(of_int u :: rat) < 2 ^ n" by simp
qed

lemma product_bound:
  fixes x c r m :: rat
  assumes "0 \<le> x" "x < m" "0 \<le> c" "c \<le> r" "0 < r"
  shows "x * c < m * r"
proof -
  have "x * c \<le> x * r" using assms(1,4) by (intro mult_left_mono)
  also have "\<dots> < m * r" using assms(2,5) by (simp only: mult_less_cancel_right_pos)
  finally show ?thesis .
qed

lemma floor_rate_30:
  assumes "0 \<le> u" "u < 2 ^ 50"
  shows "\<lfloor>fl (of_int u * fl (30 / 100))\<rfloor> = \<lfloor>(of_int u :: rat) * (30 / 100)\<rfloor>"
proof -
  note ur = amount_bound[OF assms]
  have c: "of_int 10 * fl (30 / 100) = of_int 3 - 1 / 2 ^ 53" using rate_30 by simp
  have cb: "0 \<le> fl (30 / 100)" "fl (30 / 100) \<le> 1 / 2" using rate_30 by simp_all
  have "of_int u * fl (30 / 100) < 2 ^ 50 * (1 / 2)"
    using ur cb by (intro product_bound) simp_all
  then have x: "of_int u * fl (30 / 100) < 2 ^ 49" by simp
  have ud: "of_int u * (1 / 2 ^ 53 :: rat) \<le> 1" using ur by simp
  have "\<lfloor>fl (of_int u * fl (30 / 100))\<rfloor> = (u * 3) div 10"
    using assms(1) ud x by (intro floor_fl_below[OF _ _ _ _ c]) simp_all
  moreover have "\<lfloor>(of_int u :: rat) * (of_int 3 / of_int 10)\<rfloor> = (u * 3) div 10"
    by (rule floor_ratio)
  ultimately show ?thesis by simp
qed

lemma floor_rate_15:
  assumes "0 \<le> u" "u < 2 ^ 52"
  shows "\<lfloor>fl (of_int u * fl (15 / 100))\<rfloor> = \<lfloor>(of_int u :: rat) * (15 / 100)\<rfloor>"
proof -
  note ur = amount_bound[OF assms]
  have c: "of_int 20 * fl (15 / 100) = of_int 3 - 1 / 2 ^ 53" using rate_15 by simp
  have cb: "0 \<le> fl (15 / 100)" "fl (15 / 100) \<le> 3 / 20" using rate_15 by simp_all
  define x where "x = of_int u * fl (15 / 100)"
  have "x < 2 ^ 52 * (3 / 20)"
    unfolding x_def using ur cb by (intro product_bound) simp_all
  then have x50: "x < 2 ^ 50" by simp
  have xu: "x \<le> of_int u * (3 / 20)" unfolding x_def using ur(1) cb(2) by (intro mult_left_mono)
  have ud: "of_int u * (1 / 2 ^ 53 :: rat) \<le> 1" using ur by simp
  have dis: "x < 2 ^ 49 \<or> (x < 2 ^ 50 \<and> of_int 20 < 16 + 16 * (of_int u * (1 / 2 ^ 53 :: rat)))"
  proof (cases "x < 2 ^ 49")
    case True then show ?thesis by simp
  next
    case False
    then have "2 ^ 49 \<le> of_int u * (3 / 20 :: rat)" using xu by linarith
    then have "of_int 20 < 16 + 16 * (of_int u * (1 / 2 ^ 53 :: rat))" by simp
    then show ?thesis using x50 by simp
  qed
  have "\<lfloor>fl (of_int u * fl (15 / 100))\<rfloor> = (u * 3) div 20"
    using assms(1) ud dis unfolding x_def by (intro floor_fl_below[OF _ _ _ _ c]) simp_all
  moreover have "\<lfloor>(of_int u :: rat) * (of_int 3 / of_int 20)\<rfloor> = (u * 3) div 20"
    by (rule floor_ratio)
  ultimately show ?thesis by simp
qed

lemma floor_rate_10:
  assumes "0 \<le> u" "u < 2 ^ 52"
  shows "\<lfloor>fl (of_int u * fl (10 / 100))\<rfloor> = \<lfloor>(of_int u :: rat) * (10 / 100)\<rfloor>"
proof -
  note ur = amount_bound[OF assms]
  have c: "of_int 10 * fl (10 / 100) = of_int 1 + 1 / 2 ^ 54" using rate_10 by simp
  have cb: "0 \<le> fl (10 / 100)" "fl (10 / 100) \<le> 1 / 8" using rate_10 by simp_all
  have "of_int u * fl (10 / 100) < 2 ^ 52 * (1 / 8)"
    using ur cb by (intro product_bound) simp_all
  then have x: "of_int u * fl (10 / 100) < 2 ^ 49" by simp
  have ud: "32 * (of_int u * (1 / 2 ^ 54 :: rat)) + of_int 10 \<le> 31" using ur by simp
  have "\<lfloor>fl (of_int u * fl (10 / 100))\<rfloor> = (u * 1) div 10"
    using assms(1) ud x by (intro floor_fl_above[OF _ _ _ c]) simp_all
  moreover have "\<lfloor>(of_int u :: rat) * (of_int 1 / of_int 10)\<rfloor> = (u * 1) div 10"
    by (rule floor_ratio)
  ultimately show ?thesis by simp
qed

lemma floor_rate_40:
  assumes "0 \<le> u" "u < 2 ^ 50"
  shows "\<lfloor>fl (of_int u * fl (40 / 100))\<rfloor> = \<lfloor>(of_int u :: rat) * (40 / 100)\<rfloor>"
proof -
  note ur = amount_bound[OF assms]
  have c: "of_int 10 * fl (40 / 100) = of_int 4 + 1 / 2 ^ 52" using rate_40 by simp
  have cb: "0 \<le> fl (40 / 100)" "fl (40 / 100) \<le> 1 / 2" using rate_40 by simp_all
  have "of_int u * fl (40 / 100) < 2 ^ 50 * (1 / 2)"
    using ur cb by (intro product_bound) simp_all
  then have x: "of_int u * fl (40 / 100) < 2 ^ 49" by simp
  have ud: "32 * (of_int u * (1 / 2 ^ 52 :: rat)) + of_int 10 \<le> 31" using ur by simp
  have "\<lfloor>fl (of_int u * fl (40 / 100))\<rfloor> = (u * 4) div 10"
    using assms(1) ud x by (intro floor_fl_above[OF _ _ _ c]) simp_all
  moreover have "\<lfloor>(of_int u :: rat) * (of_int 4 / of_int 10)\<rfloor> = (u * 4) div 10"
    by (rule floor_ratio)
  ultimately show ?thesis by simp
qed

lemma floor_rate_45:
  assumes "0 \<le> u" "u < 2 ^ 50"
  shows "\<lfloor>fl (of_int u * fl (45 / 100))\<rfloor> = \<lfloor>(of_int u :: rat) * (45 / 100)\<rfloor>"
proof -
  note ur = amount_bound[OF assms]
  have c: "of_int 20 * fl (45 / 100) = of_int 9 + 1 / 2 ^ 52" using rate_45 by simp
  have cb: "0 \<le> fl (45 / 100)" "fl (45 / 100) \<le> 1 / 2" using rate_45 by simp_all
  have "of_int u * fl (45 / 100) < 2 ^ 50 * (1 / 2)"
    using ur cb by (intro product_bound) simp_all
  then have x: "of_int u * fl (45 / 100) < 2 ^ 49" by simp
  have ud: "32 * (of_int u * (1 / 2 ^ 52 :: rat)) + of_int 20 \<le> 31" using ur by simp
  have "\<lfloor>fl (of_int u * fl (45 / 100))\<rfloor> = (u * 9) div 20"
    using assms(1) ud x by (intro floor_fl_above[OF _ _ _ c]) simp_all
  moreover have "\<lfloor>(of_int u :: rat) * (of_int 9 / of_int 20)\<rfloor> = (u * 9) div 20"
    by (rule floor_ratio)
  ultimately show ?thesis by simp
qed

lemma floor_rate_50:
  assumes "0 \<le> u" "u < 2 ^ 50"
  shows "\<lfloor>fl (of_int u * fl (50 / 100))\<rfloor> = \<lfloor>(of_int u :: rat) * (50 / 100)\<rfloor>"
proof -
  have "\<bar>u\<bar> \<le> 2 ^ 53" using assms by simp
  then have "is_double (of_int u)" by (rule is_double_int)
  moreover have "(0::rat) \<le> of_int u" using assms by simp
  ultimately have h: "fl (of_int u * (1 / 2)) = of_int u / 2" by (intro is_double_half)
  show ?thesis unfolding rate_50 h by simp
qed

text \<open>Whatever the rate below one, the floored product lies between 0 and the amount.\<close>

lemma floor_product_range:
  assumes u: "0 \<le> u" "u \<le> 2 ^ 53" and c: "0 \<le> c" "c \<le> 1"
  shows "0 \<le> \<lfloor>fl (of_int u * c)\<rfloor> \<and> \<lfloor>fl (of_int u * c)\<rfloor> \<le> u"
proof -
  have ur: "(0::rat) \<le> of_int u" using u by simp
  have x0: "0 \<le> of_int u * c" using ur c by simp
  have "of_int u * c \<le> of_int u * 1" using ur c by (intro mult_left_mono) simp_all
  then have "fl (of_int u * c) \<le> fl (of_int u)" using x0 by (intro fl_mono) simp_all
  moreover have "fl (of_int u) = of_int u" using u by (intro fl_of_int) simp
  ultimately have "fl (of_int u * c) \<le> of_int u" by simp
  then have "\<lfloor>fl (of_int u * c)\<rfloor> \<le> \<lfloor>(of_int u :: rat)\<rfloor>" by (rule floor_mono)
  moreover have "0 \<le> \<lfloor>fl (of_int u * c)\<rfloor>" using fl_nonneg[OF x0] by simp
  ultimately show ?thesis by simp
qed

lemma capture_exact:
  assumes "0 \<le> u" "u \<le> 2 ^ 53" "0 \<le> p" "p \<le> u"
  shows "js_sub (of_int u) (of_int p) = of_int u - of_int p"
proof -
  have "\<bar>u - p\<bar> \<le> 2 ^ 53" using assms by simp
  then have "fl (of_int (u - p)) = of_int (u - p)" by (rule fl_of_int)
  then show ?thesis by (simp add: js_sub_def)
qed

lemma cashOutSplit_row:
  assumes "CASH_OUT_TABLE b = Some row" "0 \<le> u" "u \<le> 2 ^ 53"
    "0 \<le> collaboratorUvPct row" "collaboratorUvPct row \<le> 1"
  shows "cashOutSplit b (of_int u) =
           Inr \<lparr>collaboratorPayout = of_int \<lfloor>fl (of_int u * collaboratorUvPct row)\<rfloor>,
                trebalCapture = of_int u - of_int \<lfloor>fl (of_int u * collaboratorUvPct row)\<rfloor>\<rparr>"
proof -
  note r = floor_product_range[OF assms(2,3,4,5)]
  have "js_sub (of_int u) (of_int \<lfloor>fl (of_int u * collaboratorUvPct row)\<rfloor>)
        = of_int u - of_int \<lfloor>fl (of_int u * collaboratorUvPct row)\<rfloor>"
    by (rule capture_exact[OF assms(2,3) conjunct1[OF r] conjunct2[OF r]])
  then show ?thesis
    by (simp add: cashOutSplit_def assms(1) Let_def Math_floor_def js_mul_def)
qed

lemma rate_bounds:
  "0 \<le> fl (30 / 100)" "fl (30 / 100) \<le> fl (35 / 100)" "fl (35 / 100) \<le> fl (40 / 100)"
  "fl (40 / 100) \<le> fl (45 / 100)" "fl (45 / 100) \<le> fl (50 / 100)" "fl (50 / 100) \<le> 1"
proof -
  show "0 \<le> fl (30 / 100)" by (intro fl_nonneg) simp
  show "fl (30 / 100) \<le> fl (35 / 100)" by (intro fl_mono) simp_all
  show "fl (35 / 100) \<le> fl (40 / 100)" by (intro fl_mono) simp_all
  show "fl (40 / 100) \<le> fl (45 / 100)" by (intro fl_mono) simp_all
  show "fl (45 / 100) \<le> fl (50 / 100)" by (intro fl_mono) simp_all
  show "fl (50 / 100) \<le> 1" unfolding rate_50 by simp
qed

section \<open>Seller classes\<close>

text \<open>
  Claim C6. \<open>computeSellerClass\<close> returns a class for every integer score, and the class
  is the one of the threshold definition with boundaries exactly at 300, 150, 80 and 40:
  A from 300, B from 150 below 300, C from 80 below 150, D from 40 below 80, E below 40.
  In particular 300 is class A, 79 is class D and 39 is class E.
\<close>

theorem computeSellerClass_thresholds:
  "computeSellerClass (of_int sem) = seller_class_spec sem
   \<and> computeSellerClass (of_int sem) \<in> {''A'', ''B'', ''C'', ''D'', ''E''}
   \<and> computeSellerClass 300 = ''A''
   \<and> computeSellerClass 79 = ''D''
   \<and> computeSellerClass 39 = ''E''"
proof -
  have cmp: "\<And>k::int. ((of_int k :: rat) \<le> of_int sem) = (k \<le> sem)"
    by simp
  have "computeSellerClass (of_int sem) = seller_class_spec sem"
    unfolding computeSellerClass_def seller_class_spec_def
    using cmp[of 300] cmp[of 150] cmp[of 80] cmp[of 40] by auto
  moreover have "seller_class_spec sem \<in> {''A'', ''B'', ''C'', ''D'', ''E''}"
    by (simp add: seller_class_spec_def)
  moreover have "computeSellerClass 300 = ''A''" "computeSellerClass 79 = ''D''"
    "computeSellerClass 39 = ''E''"
    by (simp_all add: computeSellerClass_def)
  ultimately show ?thesis by simp
qed

section \<open>Locked and usable value\<close>

lemma ladder_member:
  assumes "f \<in> set NFT_FACE_VALUE_LADDER"
  shows "splitLvUv f = Inr \<lparr>lv = f / 10, uv = f - f / 10\<rparr>"
    and "of_int (round (f * (10 / 100))) = f / 10"
    and "f = of_int (10 * \<lfloor>f / 10\<rfloor>)"
  using assms splitLvUv_ladder_values ladder_round ladder_tenfold
  unfolding list_all_iff by blast+

lemma not_ladder: "f \<notin> set NFT_FACE_VALUE_LADDER \<Longrightarrow> splitLvUv f = Inl FACE_VALUE_NOT_ALLOWED"
  by (simp add: splitLvUv_def assertFaceValueAllowed_def)

text \<open>
  Claim C2. For every face value \<open>f\<close> of the 15-value ladder, \<open>splitLvUv f\<close> succeeds and
  returns \<open>lv\<close> and \<open>uv\<close> with \<open>lv = round (f * 0.10)\<close>, \<open>uv = f - lv\<close> and \<open>lv + uv = f\<close>;
  for every \<open>f\<close> that is not in the ladder it fails with \<open>FACE_VALUE_NOT_ALLOWED\<close>.
\<close>

theorem splitLvUv_ladder:
  "(f \<in> set NFT_FACE_VALUE_LADDER \<longrightarrow>
      (\<exists>r. splitLvUv f = Inr r \<and> lv r = of_int (round (f * (10 / 100)))
           \<and> uv r = f - lv r \<and> lv r + uv r = f))
   \<and> (f \<notin> set NFT_FACE_VALUE_LADDER \<longrightarrow> splitLvUv f = Inl FACE_VALUE_NOT_ALLOWED)
   \<and> length NFT_FACE_VALUE_LADDER = 15"
proof (intro conjI impI)
  assume f: "f \<in> set NFT_FACE_VALUE_LADDER"
  show "\<exists>r. splitLvUv f = Inr r \<and> lv r = of_int (round (f * (10 / 100)))
           \<and> uv r = f - lv r \<and> lv r + uv r = f"
    using ladder_member(1,2)[OF f] by simp
next
  assume "f \<notin> set NFT_FACE_VALUE_LADDER"
  then show "splitLvUv f = Inl FACE_VALUE_NOT_ALLOWED" by (rule not_ladder)
next
  show "length NFT_FACE_VALUE_LADDER = 15" by (simp add: NFT_FACE_VALUE_LADDER_def)
qed

text \<open>The face value 1000 is in the ladder and splits into 100 and 900; 1001 is not.\<close>

theorem splitLvUv_ladder_witness:
  "1000 \<in> set NFT_FACE_VALUE_LADDER \<and> splitLvUv 1000 = Inr \<lparr>lv = 100, uv = 900\<rparr>
   \<and> 1001 \<notin> set NFT_FACE_VALUE_LADDER \<and> splitLvUv 1001 = Inl FACE_VALUE_NOT_ALLOWED"
proof -
  have a: "(1000::rat) \<in> set NFT_FACE_VALUE_LADDER" by (simp add: NFT_FACE_VALUE_LADDER_def)
  have b: "(1001::rat) \<notin> set NFT_FACE_VALUE_LADDER" by (simp add: NFT_FACE_VALUE_LADDER_def)
  from splitLvUv_ladder[of 1000] a obtain r where
    r: "splitLvUv 1000 = Inr r" "lv r = of_int (round (1000 * (10 / 100) :: rat))" "uv r = 1000 - lv r"
    by blast
  have "lv r = 100" using r(2) by simp
  then have "r = \<lparr>lv = 100, uv = 900\<rparr>" using r(3) by simp
  then show ?thesis using a b r(1) splitLvUv_ladder[of 1001] by simp
qed

text \<open>
  Claim C9. Every face value of the ladder is a multiple of 10, so a tenth of it has no
  fractional part, the rounding never meets a tie, and \<open>lv\<close> is exactly \<open>f / 10\<close>.
\<close>

theorem splitLvUv_lv_tenth:
  "f \<in> set NFT_FACE_VALUE_LADDER \<Longrightarrow>
     (\<exists>k::int. f = of_int (10 * k)) \<and> frac (f * (10 / 100)) = 0
     \<and> (\<exists>r. splitLvUv f = Inr r \<and> lv r = f / 10)"
proof -
  assume f: "f \<in> set NFT_FACE_VALUE_LADDER"
  note m = ladder_member[OF f]
  have "\<exists>k::int. f = of_int (10 * k)" using m(3) by blast
  moreover have "frac (f * (10 / 100)) = 0"
  proof -
    have "f * (10 / 100) = of_int \<lfloor>f / 10\<rfloor>" using m(3) by simp
    then show ?thesis by (simp only: frac_of_int)
  qed
  moreover have "\<exists>r. splitLvUv f = Inr r \<and> lv r = f / 10" using m(1) by simp
  ultimately show ?thesis by blast
qed

text \<open>The face value 380000 has the locked value 38000.\<close>

theorem splitLvUv_lv_tenth_witness:
  "380000 \<in> set NFT_FACE_VALUE_LADDER \<and> (\<exists>r. splitLvUv 380000 = Inr r \<and> lv r = 38000)"
proof -
  have a: "(380000::rat) \<in> set NFT_FACE_VALUE_LADDER" by (simp add: NFT_FACE_VALUE_LADDER_def)
  then show ?thesis using splitLvUv_lv_tenth[OF a] by simp
qed

section \<open>Cash-out\<close>

lemma table_none: "b \<notin> {1, 2, 3, 4, 5} \<Longrightarrow> CASH_OUT_TABLE b = None"
  unfolding CASH_OUT_TABLE_def by simp

lemma table_row_pct:
  assumes "b \<in> {1, 2, 3, 4, 5}"
  shows "\<exists>row. CASH_OUT_TABLE b = Some row \<and> collaboratorUvPct row = fl (cash_out_pct_spec b)"
  using assms unfolding CASH_OUT_TABLE_def cash_out_pct_spec_def by auto

lemma pct_spec_mono:
  assumes "b \<in> {1, 2, 3, 4, 5}" "b' \<in> {1, 2, 3, 4, 5}" "b \<le> b'"
  shows "cash_out_pct_spec b \<le> cash_out_pct_spec b'"
  using assms unfolding cash_out_pct_spec_def by auto

lemma pct_spec_range: "0 \<le> cash_out_pct_spec b" "cash_out_pct_spec b \<le> 1 / 2"
  unfolding cash_out_pct_spec_def by auto

lemma fl_half: "fl (1 / 2) = 1 / 2"
  using rate_50 by simp

lemma pct_range: "0 \<le> fl (cash_out_pct_spec b)" "fl (cash_out_pct_spec b) \<le> 1"
proof -
  show "0 \<le> fl (cash_out_pct_spec b)" using pct_spec_range(1) by (rule fl_nonneg)
  have "fl (cash_out_pct_spec b) \<le> fl (1 / 2)" using pct_spec_range by (intro fl_mono)
  then show "fl (cash_out_pct_spec b) \<le> 1" by (simp add: fl_half)
qed

lemma payout_any:
  assumes "CASH_OUT_TABLE b = Some row"
  shows "\<exists>r. cashOutSplit b x = Inr r
             \<and> collaboratorPayout r = of_int \<lfloor>fl (x * collaboratorUvPct row)\<rfloor>"
  by (simp add: cashOutSplit_def assms Let_def Math_floor_def js_mul_def)

lemma rate_30_below_50: "fl (30 / 100) < fl (50 / 100)"
proof -
  have "10 * fl (30 / 100) < 10 * (1 / 2)" unfolding rate_30 by simp
  then have "fl (30 / 100) < 1 / 2" by simp
  then show ?thesis unfolding rate_50 by simp
qed

text \<open>
  Claim C4. For every fixed amount \<open>x \<ge> 0\<close>, the collaborator payout of \<open>cashOutSplit\<close> does
  not decrease as the batch count grows from 1 to 5; the collaborator percentage of the
  table rises from 0.30 at batch count 1 to 0.50 at batch count 5.
\<close>

theorem cashOutSplit_payout_mono:
  assumes "0 \<le> x" "b \<in> {1, 2, 3, 4, 5}" "b' \<in> {1, 2, 3, 4, 5}" "b \<le> b'"
  shows "(\<exists>r r'. cashOutSplit b x = Inr r \<and> cashOutSplit b' x = Inr r'
            \<and> collaboratorPayout r \<le> collaboratorPayout r')
       \<and> map_option collaboratorUvPct (CASH_OUT_TABLE 1) = Some (fl (30 / 100))
       \<and> map_option collaboratorUvPct (CASH_OUT_TABLE 5) = Some (fl (50 / 100))
       \<and> fl (30 / 100) < fl (50 / 100)"
proof -
  obtain row where row: "CASH_OUT_TABLE b = Some row"
      "collaboratorUvPct row = fl (cash_out_pct_spec b)"
    using table_row_pct[OF assms(2)] by blast
  obtain row' where row': "CASH_OUT_TABLE b' = Some row'"
      "collaboratorUvPct row' = fl (cash_out_pct_spec b')"
    using table_row_pct[OF assms(3)] by blast
  obtain r where r: "cashOutSplit b x = Inr r"
      "collaboratorPayout r = of_int \<lfloor>fl (x * collaboratorUvPct row)\<rfloor>"
    using payout_any[OF row(1)] by blast
  obtain r' where r': "cashOutSplit b' x = Inr r'"
      "collaboratorPayout r' = of_int \<lfloor>fl (x * collaboratorUvPct row')\<rfloor>"
    using payout_any[OF row'(1)] by blast
  have "fl (cash_out_pct_spec b) \<le> fl (cash_out_pct_spec b')"
    using pct_spec_range(1) pct_spec_mono[OF assms(2,3,4)] by (rule fl_mono)
  then have "x * collaboratorUvPct row \<le> x * collaboratorUvPct row'"
    using assms(1) row(2) row'(2) by (simp add: mult_left_mono)
  moreover have "0 \<le> x * collaboratorUvPct row"
    using assms(1) pct_range(1)[of b] row(2) by simp
  ultimately have "fl (x * collaboratorUvPct row) \<le> fl (x * collaboratorUvPct row')"
    by (intro fl_mono)
  then have "\<lfloor>fl (x * collaboratorUvPct row)\<rfloor> \<le> \<lfloor>fl (x * collaboratorUvPct row')\<rfloor>"
    by (rule floor_mono)
  then have "collaboratorPayout r \<le> collaboratorPayout r'"
    using r(2) r'(2) by simp
  then have "\<exists>r r'. cashOutSplit b x = Inr r \<and> cashOutSplit b' x = Inr r'
            \<and> collaboratorPayout r \<le> collaboratorPayout r'"
    using r(1) r'(1) by blast
  moreover have "map_option collaboratorUvPct (CASH_OUT_TABLE 1) = Some (fl (30 / 100))"
    "map_option collaboratorUvPct (CASH_OUT_TABLE 5) = Some (fl (50 / 100))"
    unfolding CASH_OUT_TABLE_def by simp_all
  ultimately show ?thesis using rate_30_below_50 by blast
qed

text \<open>At 900 the payout rises from 270 for one batch to 450 for five.\<close>

theorem cashOutSplit_payout_mono_witness:
  "cashOutSplit 1 900 = Inr \<lparr>collaboratorPayout = 270, trebalCapture = 630\<rparr>
   \<and> cashOutSplit 5 900 = Inr \<lparr>collaboratorPayout = 450, trebalCapture = 450\<rparr>
   \<and> (\<exists>r r'. cashOutSplit 1 900 = Inr r \<and> cashOutSplit 5 900 = Inr r'
         \<and> collaboratorPayout r \<le> collaboratorPayout r')"
proof -
  have a: "cashOutSplit 1 900 = Inr \<lparr>collaboratorPayout = 270, trebalCapture = 630\<rparr>"
    by code_simp
  have b: "cashOutSplit 5 900 = Inr \<lparr>collaboratorPayout = 450, trebalCapture = 450\<rparr>"
    by code_simp
  have "\<exists>r r'. cashOutSplit 1 900 = Inr r \<and> cashOutSplit 5 900 = Inr r'
         \<and> collaboratorPayout r \<le> collaboratorPayout r'"
    using cashOutSplit_payout_mono[of 900 1 5] by simp
  then show ?thesis using a b by blast
qed

lemma floor_rate_spec:
  assumes "0 \<le> u" "u < 2 ^ 50" "b \<in> {1, 3, 4, 5}"
  shows "\<lfloor>fl (of_int u * fl (cash_out_pct_spec b))\<rfloor> = \<lfloor>(of_int u :: rat) * cash_out_pct_spec b\<rfloor>"
proof -
  from assms(3) consider "b = 1" | "b = 3" | "b = 4" | "b = 5" by auto
  then show ?thesis
  proof cases
    case 1
    have "cash_out_pct_spec b = 30 / 100" unfolding 1 cash_out_pct_spec_def by simp
    then show ?thesis using floor_rate_30[OF assms(1,2)] by (simp only:)
  next
    case 2
    have "cash_out_pct_spec b = 40 / 100" unfolding 2 cash_out_pct_spec_def by simp
    then show ?thesis using floor_rate_40[OF assms(1,2)] by (simp only:)
  next
    case 3
    have "cash_out_pct_spec b = 45 / 100" unfolding 3 cash_out_pct_spec_def by simp
    then show ?thesis using floor_rate_45[OF assms(1,2)] by (simp only:)
  next
    case 4
    have "cash_out_pct_spec b = 50 / 100" unfolding 4 cash_out_pct_spec_def by simp
    then show ?thesis using floor_rate_50[OF assms(1,2)] by (simp only:)
  qed
qed

text \<open>
  Claim C3, as the code has it. For every batch count from 1 to 5 and every integer
  amount \<open>u\<close> with \<open>0 \<le> u < 2^50\<close>, \<open>cashOutSplit\<close> succeeds; the collaborator payout \<open>p\<close> is an
  integer between 0 and \<open>u\<close>, the capture is \<open>u - p\<close>, and so the two add up to \<open>u\<close>
  exactly. For the batch counts 1, 3, 4 and 5 the payout is the floor of \<open>u\<close> times the
  percentage of the table, 30, 40, 45 and 50 percent. For every batch count that is not
  one of 1 to 5, and every amount, it fails with \<open>INVALID_BATCH_COUNT\<close>.
\<close>

theorem cashOutSplit_conserves:
  assumes "0 \<le> u" "u < 2 ^ 50"
  shows "(b \<in> {1, 2, 3, 4, 5} \<longrightarrow>
           (\<exists>p. cashOutSplit b (of_int u)
                  = Inr \<lparr>collaboratorPayout = of_int p, trebalCapture = of_int u - of_int p\<rparr>
                \<and> 0 \<le> p \<and> p \<le> u
                \<and> (b \<noteq> 2 \<longrightarrow> p = \<lfloor>(of_int u :: rat) * cash_out_pct_spec b\<rfloor>)))
       \<and> (b \<notin> {1, 2, 3, 4, 5} \<longrightarrow> cashOutSplit b x = Inl INVALID_BATCH_COUNT)"
proof (intro conjI impI)
  assume b: "b \<in> {1, 2, 3, 4, 5}"
  obtain row where row: "CASH_OUT_TABLE b = Some row"
      "collaboratorUvPct row = fl (cash_out_pct_spec b)"
    using table_row_pct[OF b] by blast
  define p where "p = \<lfloor>fl (of_int u * fl (cash_out_pct_spec b))\<rfloor>"
  have u53: "u \<le> 2 ^ 53" using assms(2) by simp
  have "cashOutSplit b (of_int u) =
          Inr \<lparr>collaboratorPayout = of_int p, trebalCapture = of_int u - of_int p\<rparr>"
    using cashOutSplit_row[OF row(1) assms(1) u53] pct_range[of b]
    by (simp add: row(2) p_def)
  moreover have "0 \<le> p \<and> p \<le> u"
    unfolding p_def using assms(1) u53 pct_range[of b] by (intro floor_product_range)
  moreover have "b \<noteq> 2 \<longrightarrow> p = \<lfloor>(of_int u :: rat) * cash_out_pct_spec b\<rfloor>"
  proof
    assume "b \<noteq> 2"
    then have "b \<in> {1, 3, 4, 5}" using b by auto
    then show "p = \<lfloor>(of_int u :: rat) * cash_out_pct_spec b\<rfloor>"
      unfolding p_def using assms by (intro floor_rate_spec)
  qed
  ultimately show "\<exists>p. cashOutSplit b (of_int u)
                  = Inr \<lparr>collaboratorPayout = of_int p, trebalCapture = of_int u - of_int p\<rparr>
                \<and> 0 \<le> p \<and> p \<le> u
                \<and> (b \<noteq> 2 \<longrightarrow> p = \<lfloor>(of_int u :: rat) * cash_out_pct_spec b\<rfloor>)"
    by blast
next
  assume "b \<notin> {1, 2, 3, 4, 5}"
  then show "cashOutSplit b x = Inl INVALID_BATCH_COUNT"
    by (simp add: cashOutSplit_def table_none)
qed

text \<open>One batch at 900 pays 270 and captures 630; six batches are refused.\<close>

theorem cashOutSplit_conserves_witness:
  "(0::int) \<le> 900 \<and> (900::int) < 2 ^ 50 \<and> (1::rat) \<in> {1, 2, 3, 4, 5}
   \<and> cashOutSplit 1 900 = Inr \<lparr>collaboratorPayout = 270, trebalCapture = 630\<rparr>
   \<and> (6::rat) \<notin> {1, 2, 3, 4, 5} \<and> cashOutSplit 6 900 = Inl INVALID_BATCH_COUNT"
proof -
  have h: "(0::int) \<le> 900" "(900::int) < 2 ^ 50" by simp_all
  from cashOutSplit_conserves[OF h, of 1 900] obtain p where
    p: "cashOutSplit 1 (of_int 900) = Inr \<lparr>collaboratorPayout = of_int p, trebalCapture = of_int 900 - of_int p\<rparr>"
       "p = \<lfloor>(of_int 900 :: rat) * cash_out_pct_spec 1\<rfloor>"
    by auto
  have "p = 270" unfolding p(2) cash_out_pct_spec_def by simp
  then have "cashOutSplit 1 900 = Inr \<lparr>collaboratorPayout = 270, trebalCapture = 630\<rparr>"
    using p(1) by simp
  moreover have "cashOutSplit 6 900 = Inl INVALID_BATCH_COUNT"
    using cashOutSplit_conserves[OF h, of 6 900] by simp
  ultimately show ?thesis by simp
qed

text \<open>
  The payout is the floor of a binary64 product, and that is not always the floor of the
  exact product. A certificate of face value 380000 has the usable value 342000; cashed
  out with two batches, 35 percent of it is 119700 exactly, and the code pays 119699,
  because the Number nearest to 0.35 lies below 0.35 and the product rounds to
  119699.99999999999. Past \<open>2^50\<close> the other rows differ too: 45 percent of
  1250999896491811 has the floor 562949953421314, and the code pays one more.
\<close>

theorem cashOutSplit_floor_counterexample:
  "cashOutSplit 2 342000 = Inr \<lparr>collaboratorPayout = 119699, trebalCapture = 222301\<rparr>
   \<and> (of_int \<lfloor>342000 * (35 / 100) :: rat\<rfloor> :: rat) = 119700
   \<and> cashOutSplit 4 1250999896491811
        = Inr \<lparr>collaboratorPayout = 562949953421315, trebalCapture = 688049943070496\<rparr>
   \<and> (of_int \<lfloor>1250999896491811 * (45 / 100) :: rat\<rfloor> :: rat) = 562949953421314"
  by code_simp

section \<open>Sponsorship\<close>

text \<open>
  Claim C5. For every Number \<open>x \<ge> 0\<close>, \<open>sponsorshipSplit\<close> returns the collaborator share
  \<open>floor (x * 0.50)\<close>, the seller share \<open>floor (x * 0.25)\<close> and the retained rest
  \<open>x - collaborator - seller\<close>, so the three add up to \<open>x\<close> exactly.
\<close>

theorem sponsorshipSplit_conserves:
  assumes "0 \<le> x" "is_double x"
  shows "\<exists>r. sponsorshipSplit x = r
           \<and> collaborator r = of_int \<lfloor>x * (50 / 100)\<rfloor>
           \<and> seller r = of_int \<lfloor>x * (25 / 100)\<rfloor>
           \<and> retained r = x - collaborator r - seller r
           \<and> collaborator r + seller r + retained r = x"
  unfolding sponsorshipSplit_double[OF assms] by simp

text \<open>The amount 900 splits into 450, 225 and 225.\<close>

theorem sponsorshipSplit_conserves_witness:
  "(0::rat) \<le> 900 \<and> is_double 900
   \<and> sponsorshipSplit 900 = \<lparr>collaborator = 450, seller = 225, retained = 225\<rparr>"
proof -
  have h: "(0::rat) \<le> 900" by simp
  have "is_double (of_int 900)" by (intro is_double_int) simp
  then have d: "is_double 900" by simp
  from sponsorshipSplit_conserves[OF h d] obtain r where
    r: "sponsorshipSplit 900 = r"
       "collaborator r = of_int \<lfloor>(900 :: rat) * (50 / 100)\<rfloor>"
       "seller r = of_int \<lfloor>(900 :: rat) * (25 / 100)\<rfloor>"
       "retained r = 900 - collaborator r - seller r"
    by blast
  have "collaborator r = 450" "seller r = 225" using r(2,3) by simp_all
  then have "r = \<lparr>collaborator = 450, seller = 225, retained = 225\<rparr>" using r(4) by simp
  then show ?thesis using h d r(1) by simp
qed

section \<open>The internal allocation\<close>

text \<open>
  Claim C7, as the code has it. For every integer amount \<open>u\<close> with \<open>0 \<le> u < 2^52\<close>,
  \<open>distributionInternalAllocationFromUv\<close> returns the platform fee \<open>floor (u * 0.10)\<close> and the
  discount pool \<open>floor (u * 0.15)\<close>, both taken from the full usable value \<open>u\<close> and not from
  the retained rest of \<open>sponsorshipSplit\<close>.
\<close>

theorem allocation_from_full_uv:
  assumes "0 \<le> u" "u < 2 ^ 52"
  shows "distributionInternalAllocationFromUv (of_int u) =
           \<lparr>platformFee = of_int \<lfloor>(of_int u :: rat) * (10 / 100)\<rfloor>,
            discountPool = of_int \<lfloor>(of_int u :: rat) * (15 / 100)\<rfloor>\<rparr>"
  unfolding distributionInternalAllocationFromUv_def Let_def Math_floor_def js_mul_def
    floor_rate_10[OF assms] floor_rate_15[OF assms] by (rule refl)

text \<open>At 900 the fee is 90 and the pool 135, while the retained rest is 225, a tenth of
  which would be 22.\<close>

theorem allocation_from_full_uv_witness:
  "(0::int) \<le> 900 \<and> (900::int) < 2 ^ 52
   \<and> distributionInternalAllocationFromUv 900 = \<lparr>platformFee = 90, discountPool = 135\<rparr>
   \<and> retained (sponsorshipSplit 900) = 225
   \<and> platformFee (distributionInternalAllocationFromUv 900)
       \<noteq> of_int \<lfloor>retained (sponsorshipSplit 900) * (10 / 100)\<rfloor>"
proof -
  have h: "(0::int) \<le> 900" "(900::int) < 2 ^ 52" by simp_all
  have a: "distributionInternalAllocationFromUv 900 = \<lparr>platformFee = 90, discountPool = 135\<rparr>"
    using allocation_from_full_uv[OF h] by simp
  have r: "retained (sponsorshipSplit 900) = 225" by code_simp
  have f: "\<lfloor>(225::rat) * (10 / 100)\<rfloor> = 22" by code_simp
  show ?thesis unfolding a r f using h by simp
qed

text \<open>For larger amounts the rounded product can pass the next integer: a tenth of
  6755399441055749, an amount below \<open>2^53\<close>, has the floor 675539944105574, and the code
  returns one more.\<close>

theorem allocation_floor_counterexample:
  "platformFee (distributionInternalAllocationFromUv 6755399441055749) = 675539944105575
   \<and> (of_int \<lfloor>6755399441055749 * (10 / 100) :: rat\<rfloor> :: rat) = 675539944105574"
  by code_simp

lemma rate_sum: "fl (10 / 100) + fl (15 / 100) = 1 / 4"
proof -
  have "20 * (fl (10 / 100) + fl (15 / 100)) = 2 * (10 * fl (10 / 100)) + 20 * fl (15 / 100)"
    by simp
  also have "\<dots> = 5" unfolding rate_10 rate_15 by simp
  finally show ?thesis by simp
qed

lemma rate_small: "0 < fl (10 / 100)" "fl (10 / 100) \<le> 1 / 8" "0 < fl (15 / 100)" "fl (15 / 100) \<le> 1 / 4"
proof -
  have a: "10 * fl (10 / 100) = 1 + 1 / 2 ^ 54" by (rule rate_10)
  have b: "20 * fl (15 / 100) = 3 - 1 / 2 ^ 53" by (rule rate_15)
  show "0 < fl (10 / 100)" using a by simp
  show "fl (10 / 100) \<le> 1 / 8" using a by simp
  show "0 < fl (15 / 100)" using b by simp
  show "fl (15 / 100) \<le> 1 / 4" using b by simp
qed

lemma allocation_sum_bound:
  assumes "0 < u" "u < 2 ^ 55"
  shows "\<lfloor>fl (of_int u * fl (10 / 100))\<rfloor> + \<lfloor>fl (of_int u * fl (15 / 100))\<rfloor>
         \<le> u - u div 2 - u div 4"
proof -
  define x1 where "x1 = of_int u * fl (10 / 100)"
  define x2 where "x2 = of_int u * fl (15 / 100)"
  have ur: "(0::rat) < of_int u" "(of_int u :: rat) < 2 ^ 55"
  proof -
    show "(0::rat) < of_int u" using assms by simp
    have "(of_int u :: rat) < of_int (2 ^ 55)" using assms(2) by (simp only: of_int_less_iff)
    then show "(of_int u :: rat) < 2 ^ 55" by simp
  qed
  have x1: "0 < x1" "x1 < 2 powi 52"
  proof -
    show "0 < x1" unfolding x1_def using ur rate_small by simp
    have "x1 \<le> of_int u * (1 / 8)" unfolding x1_def using ur rate_small by (intro mult_left_mono) simp_all
    then show "x1 < 2 powi 52" using ur(2) by simp
  qed
  have x2: "0 < x2" "x2 < 2 powi 53"
  proof -
    show "0 < x2" unfolding x2_def using ur rate_small by simp
    have "x2 \<le> of_int u * (1 / 4)" unfolding x2_def using ur rate_small by (intro mult_left_mono) simp_all
    then show "x2 < 2 powi 53" using ur(2) by simp
  qed
  have "\<bar>fl x1 - x1\<bar> \<le> 2 powi (52 - 54)" using x1 by (rule fl_err_below)
  moreover have "(2::rat) powi (52 - 54) = 1 / 4" by (simp add: power_int_minus_divide)
  ultimately have e1: "fl x1 \<le> x1 + 1 / 4" by linarith
  have "\<bar>fl x2 - x2\<bar> \<le> 2 powi (53 - 54)" using x2 by (rule fl_err_below)
  moreover have "(2::rat) powi (53 - 54) = 1 / 2" by (simp add: power_int_minus_divide)
  ultimately have e2: "fl x2 \<le> x2 + 1 / 2" by linarith
  have s: "x1 + x2 = of_int u / 4"
  proof -
    have "x1 + x2 = of_int u * (fl (10 / 100) + fl (15 / 100))"
      by (simp add: x1_def x2_def algebra_simps)
    then show ?thesis unfolding rate_sum by simp
  qed
  define F where "F = \<lfloor>fl x1\<rfloor>"
  define P where "P = \<lfloor>fl x2\<rfloor>"
  have "of_int F \<le> fl x1" "of_int P \<le> fl x2" unfolding F_def P_def by simp_all
  then have "(of_int F :: rat) + of_int P \<le> of_int u / 4 + 3 / 4" using e1 e2 s by linarith
  then have "(of_int (4 * (F + P)) :: rat) \<le> of_int (u + 3)" by simp
  then have fp: "4 * (F + P) \<le> u + 3" by (simp only: of_int_le_iff)
  define a where "a = u div 2"
  define b where "b = u div 4"
  have dv: "2 * a \<le> u" "4 * b \<le> u" unfolding a_def b_def by linarith+
  have "F + P \<le> u - a - b" using fp dv by arith
  then have "F + P \<le> u - u div 2 - u div 4" by (simp only: a_def b_def)
  then show ?thesis by (simp add: F_def P_def x1_def x2_def)
qed

text \<open>
  Claim C10, as the code has it. For every integer amount \<open>u\<close> that is a Number, with
  \<open>0 \<le> u < 2^55\<close>, the platform fee and the discount pool together do not exceed the
  retained rest of \<open>sponsorshipSplit\<close>. Every integer below \<open>2^53\<close> is a Number.
\<close>

theorem allocation_within_retained:
  assumes "0 \<le> u" "u < 2 ^ 55" "is_double (of_int u)"
  shows "platformFee (distributionInternalAllocationFromUv (of_int u))
           + discountPool (distributionInternalAllocationFromUv (of_int u))
         \<le> retained (sponsorshipSplit (of_int u))"
proof (cases "u = 0")
  case True
  have "platformFee (distributionInternalAllocationFromUv 0) = 0"
       "discountPool (distributionInternalAllocationFromUv 0) = 0"
    by (simp_all add: distributionInternalAllocationFromUv_def Math_floor_def js_mul_def fl_zero)
  moreover have "retained (sponsorshipSplit 0) = 0"
    by (simp add: sponsorshipSplit_def Math_floor_def js_mul_def js_sub_def fl_zero)
  ultimately show ?thesis using True by simp
next
  case False
  then have upos: "0 < u" using assms by simp
  have r: "retained (sponsorshipSplit (of_int u)) = of_int (u - u div 2 - u div 4)"
    unfolding sponsorshipSplit_exact[OF assms(1,3)] by simp
  have a: "platformFee (distributionInternalAllocationFromUv (of_int u))
            + discountPool (distributionInternalAllocationFromUv (of_int u))
           = of_int (\<lfloor>fl (of_int u * fl (10 / 100))\<rfloor> + \<lfloor>fl (of_int u * fl (15 / 100))\<rfloor>)"
    unfolding distributionInternalAllocationFromUv_def Let_def Math_floor_def js_mul_def by simp
  show ?thesis unfolding r a
    using allocation_sum_bound[OF upos assms(2)] by (simp only: of_int_le_iff)
qed

text \<open>At 900 the fee and the pool are 90 and 135, and 225 is retained.\<close>

theorem allocation_within_retained_witness:
  "(0::int) \<le> 900 \<and> (900::int) < 2 ^ 55 \<and> is_double (of_int (900::int))
   \<and> platformFee (distributionInternalAllocationFromUv 900)
        + discountPool (distributionInternalAllocationFromUv 900)
      \<le> retained (sponsorshipSplit 900)"
proof -
  have h: "(0::int) \<le> 900" "(900::int) < 2 ^ 55" by simp_all
  have d: "is_double (of_int (900::int))" by (intro is_double_int) simp
  show ?thesis using allocation_within_retained[OF h d] h d by simp
qed

text \<open>From \<open>2^55\<close> on the two rounded products can exceed the rest: the Number
  63124677958562664 retains 15781169489640666, while the fee and the pool add up to
  15781169489640667.\<close>

theorem allocation_exceeds_retained_counterexample:
  "is_double 63124677958562664
   \<and> retained (sponsorshipSplit 63124677958562664) = 15781169489640666
   \<and> platformFee (distributionInternalAllocationFromUv 63124677958562664) = 6312467795856267
   \<and> discountPool (distributionInternalAllocationFromUv 63124677958562664) = 9468701693784400
   \<and> retained (sponsorshipSplit 63124677958562664)
       < platformFee (distributionInternalAllocationFromUv 63124677958562664)
         + discountPool (distributionInternalAllocationFromUv 63124677958562664)"
  by code_simp

section \<open>Retired certificates\<close>

lemma find_n6: "nft_findUnique example_db ''n6'' = Some (example_nft ''n6'' ''RETIRED'' ''carol'')"
  by (simp add: nft_findUnique_def example_db_def example_nft_def)

lemma find_sam: "user_findUnique example_db ''sam'' = Some (example_user ''sam'' [''SELLER''])"
  by (simp add: user_findUnique_def example_db_def example_user_def)

text \<open>
  Claim C1, as the code has it. For every certificate in state RETIRED, the stack,
  cash-out and sponsorship-convert operations attempted on it fail and leave the database,
  and with it the certificate, unchanged. They fail with \<open>NFT_RETIRED\<close> when the request
  reaches that check: the caller is authenticated, holds the COLLABORATOR role and owns
  the certificate, the batch count is one of 1 to 5, and the seller exists and holds the
  SELLER role. A request that an earlier check refuses fails with that check's error.
\<close>

theorem retired_rejected:
  assumes "nft_findUnique d i = Some n" "state n = ''RETIRED''"
  shows "snd (collab_nft_stack r i d) = d \<and> failed (fst (collab_nft_stack r i d))
       \<and> snd (collab_nft_cashout r i bc d) = d \<and> failed (fst (collab_nft_cashout r i bc d))
       \<and> snd (collab_nft_sponsorship_convert r i sid d) = d
       \<and> failed (fst (collab_nft_sponsorship_convert r i sid d))
       \<and> (r = Some t \<and> ''COLLABORATOR'' \<in> set (roles t) \<and> ownerId n = sub t \<longrightarrow>
            collab_nft_stack r i d = (Reject 409 ''NFT_RETIRED'', d)
            \<and> (bc \<in> {1, 2, 3, 4, 5} \<longrightarrow>
                  collab_nft_cashout r i bc d = (Reject 409 ''NFT_RETIRED'', d))
            \<and> ((\<exists>s. user_findUnique d sid = Some s \<and> ''SELLER'' \<in> set (user_roles s)) \<longrightarrow>
                  collab_nft_sponsorship_convert r i sid d = (Reject 409 ''NFT_RETIRED'', d)))"
proof -
  have s1: "snd (collab_nft_stack r i d) = d \<and> failed (fst (collab_nft_stack r i d))"
    using assms by (auto simp: collab_nft_stack_def failed_def split: option.splits)
  have s2: "snd (collab_nft_cashout r i bc d) = d \<and> failed (fst (collab_nft_cashout r i bc d))"
    using assms by (auto simp: collab_nft_cashout_def failed_def split: option.splits)
  have s3: "snd (collab_nft_sponsorship_convert r i sid d) = d
            \<and> failed (fst (collab_nft_sponsorship_convert r i sid d))"
    using assms by (auto simp: collab_nft_sponsorship_convert_def failed_def split: option.splits)
  have s4: "r = Some t \<and> ''COLLABORATOR'' \<in> set (roles t) \<and> ownerId n = sub t \<longrightarrow>
            collab_nft_stack r i d = (Reject 409 ''NFT_RETIRED'', d)
            \<and> (bc \<in> {1, 2, 3, 4, 5} \<longrightarrow>
                  collab_nft_cashout r i bc d = (Reject 409 ''NFT_RETIRED'', d))
            \<and> ((\<exists>s. user_findUnique d sid = Some s \<and> ''SELLER'' \<in> set (user_roles s)) \<longrightarrow>
                  collab_nft_sponsorship_convert r i sid d = (Reject 409 ''NFT_RETIRED'', d))"
  proof (intro impI conjI)
    assume a: "r = Some t \<and> ''COLLABORATOR'' \<in> set (roles t) \<and> ownerId n = sub t"
    show "collab_nft_stack r i d = (Reject 409 ''NFT_RETIRED'', d)"
      using assms a by (simp add: collab_nft_stack_def)
    show "collab_nft_cashout r i bc d = (Reject 409 ''NFT_RETIRED'', d)" if "bc \<in> {1, 2, 3, 4, 5}"
      using assms a that by (auto simp: collab_nft_cashout_def)
    show "collab_nft_sponsorship_convert r i sid d = (Reject 409 ''NFT_RETIRED'', d)"
      if "\<exists>s. user_findUnique d sid = Some s \<and> ''SELLER'' \<in> set (user_roles s)"
      using assms a that by (auto simp: collab_nft_sponsorship_convert_def)
  qed
  show ?thesis using s1 s2 s3 s4 by blast
qed

text \<open>carol owns the RETIRED certificate n6: her three requests are refused with
  \<open>NFT_RETIRED\<close>.\<close>

theorem retired_rejected_witness:
  "nft_findUnique example_db ''n6'' = Some (example_nft ''n6'' ''RETIRED'' ''carol'')
   \<and> state (example_nft ''n6'' ''RETIRED'' ''carol'') = ''RETIRED''
   \<and> collab_nft_stack (Some (token_of ''carol'' [''COLLABORATOR''])) ''n6'' example_db
       = (Reject 409 ''NFT_RETIRED'', example_db)
   \<and> collab_nft_cashout (Some (token_of ''carol'' [''COLLABORATOR''])) ''n6'' 1 example_db
       = (Reject 409 ''NFT_RETIRED'', example_db)
   \<and> collab_nft_sponsorship_convert (Some (token_of ''carol'' [''COLLABORATOR''])) ''n6'' ''sam''
        example_db
       = (Reject 409 ''NFT_RETIRED'', example_db)"
proof -
  have st: "state (example_nft ''n6'' ''RETIRED'' ''carol'') = ''RETIRED''"
    by (simp add: example_nft_def)
  have own: "ownerId (example_nft ''n6'' ''RETIRED'' ''carol'') = sub (token_of ''carol'' [''COLLABORATOR''])"
    "''COLLABORATOR'' \<in> set (roles (token_of ''carol'' [''COLLABORATOR'']))"
    by (simp_all add: example_nft_def token_of_def)
  have sel: "\<exists>s. user_findUnique example_db ''sam'' = Some s \<and> ''SELLER'' \<in> set (user_roles s)"
    by (simp add: find_sam example_user_def)
  show ?thesis
    using retired_rejected[OF find_n6 st, of "Some (token_of ''carol'' [''COLLABORATOR''])" 1 "''sam''"
        "token_of ''carol'' [''COLLABORATOR'']"] own sel find_n6 st
    by simp
qed

text \<open>The gift handler decides without reading the state of the certificate: whatever the
  state, a gift that passes the checks stores the certificate in state GIFT.\<close>

lemma nft_gift_ignores_state:
  assumes "r = Some t" "''CUSTOMER'' \<in> set (roles t)"
    "nft_findUnique d i = Some n" "ownerId n = sub t"
    "user_findUnique d cid = Some c" "''COLLABORATOR'' \<in> set (user_roles c)"
    "nft_count_active d cid < 5"
  shows "fst (nft_gift r i cid d)
         = Ok_nft (n\<lparr>ownerId := cid, giftedFromId := Some (sub t), state := ''GIFT''\<rparr>)"
  using assms by (simp add: nft_gift_def Let_def)

text \<open>
  Two requests on a RETIRED certificate that do not end in \<open>NFT_RETIRED\<close>. bob, who does not
  own n6, is refused with \<open>NOT_OWNER\<close>: ownership is checked first in every handler. dave
  owns the RETIRED certificate n7 and gifts it to carol: the gift handler, unlike the other
  three, never looks at the state, so the gift succeeds and the certificate is stored in
  state GIFT again with carol as its owner.
\<close>

theorem retired_rejected_counterexample:
  "nft_findUnique example_db ''n6'' = Some (example_nft ''n6'' ''RETIRED'' ''carol'')
   \<and> collab_nft_stack (Some (token_of ''bob'' [''COLLABORATOR''])) ''n6'' example_db
       = (Reject 403 ''NOT_OWNER'', example_db)
   \<and> nft_findUnique example_db ''n7'' = Some (example_nft ''n7'' ''RETIRED'' ''dave'')
   \<and> fst (nft_gift (Some (token_of ''dave'' [''CUSTOMER'', ''COLLABORATOR''])) ''n7'' ''carol'' example_db)
       = Ok_nft ((example_nft ''n7'' ''GIFT'' ''carol'')\<lparr>giftedFromId := Some ''dave''\<rparr>)
   \<and> nft_findUnique
        (snd (nft_gift (Some (token_of ''dave'' [''CUSTOMER'', ''COLLABORATOR''])) ''n7'' ''carol'' example_db))
        ''n7''
       = Some ((example_nft ''n7'' ''GIFT'' ''carol'')\<lparr>giftedFromId := Some ''dave''\<rparr>)"
  by (simp add: nft_findUnique_def user_findUnique_def nft_count_active_def nft_update_def
      auditEvent_create_def collab_nft_stack_def nft_gift_def example_db_def example_nft_def
      example_user_def token_of_def Let_def)

section \<open>The collaborator's capacity\<close>

text \<open>
  Claim C8, as the code has it. When the target of a gift already owns 5 or more
  certificates that are not RETIRED, the gift fails and leaves the database unchanged, and
  with it the owner, the state and \<open>giftedFromId\<close> of the certificate. It fails with
  \<open>COLLABORATOR_NFT_CAP_REACHED\<close> when the request reaches that check: the caller is
  authenticated, holds the CUSTOMER role and owns the certificate, and the target exists
  and holds the COLLABORATOR role.
\<close>

theorem gift_capacity:
  assumes "5 \<le> nft_count_active d cid"
  shows "snd (nft_gift r i cid d) = d \<and> failed (fst (nft_gift r i cid d))
       \<and> (r = Some t \<and> ''CUSTOMER'' \<in> set (roles t)
            \<and> nft_findUnique d i = Some n \<and> ownerId n = sub t
            \<and> user_findUnique d cid = Some c \<and> ''COLLABORATOR'' \<in> set (user_roles c)
          \<longrightarrow> nft_gift r i cid d = (Reject 409 ''COLLABORATOR_NFT_CAP_REACHED'', d))"
proof -
  have "snd (nft_gift r i cid d) = d \<and> failed (fst (nft_gift r i cid d))"
    using assms by (auto simp: nft_gift_def failed_def split: option.splits)
  moreover have "r = Some t \<and> ''CUSTOMER'' \<in> set (roles t)
            \<and> nft_findUnique d i = Some n \<and> ownerId n = sub t
            \<and> user_findUnique d cid = Some c \<and> ''COLLABORATOR'' \<in> set (user_roles c)
          \<longrightarrow> nft_gift r i cid d = (Reject 409 ''COLLABORATOR_NFT_CAP_REACHED'', d)"
    using assms by (auto simp: nft_gift_def)
  ultimately show ?thesis by blast
qed

lemma count_bob: "nft_count_active example_db ''bob'' = 5"
  by (simp add: nft_count_active_def example_db_def example_nft_def)

text \<open>alice gifts her certificate n0 to bob, who holds five: refused.\<close>

theorem gift_capacity_witness:
  "5 \<le> nft_count_active example_db ''bob''
   \<and> nft_gift (Some (token_of ''alice'' [''CUSTOMER''])) ''n0'' ''bob'' example_db
       = (Reject 409 ''COLLABORATOR_NFT_CAP_REACHED'', example_db)"
proof -
  have c: "5 \<le> nft_count_active example_db ''bob''" by (simp add: count_bob)
  have n: "nft_findUnique example_db ''n0'' = Some (example_nft ''n0'' ''GIFT'' ''alice'')"
    by (simp add: nft_findUnique_def example_db_def example_nft_def)
  have u: "user_findUnique example_db ''bob'' = Some (example_user ''bob'' [''COLLABORATOR''])"
    by (simp add: user_findUnique_def example_db_def example_user_def)
  show ?thesis
    using gift_capacity[OF c, of "Some (token_of ''alice'' [''CUSTOMER''])" "''n0''"
        "token_of ''alice'' [''CUSTOMER'']" "example_nft ''n0'' ''GIFT'' ''alice''"
        "example_user ''bob'' [''COLLABORATOR'']"] c n u
    by (simp add: token_of_def example_nft_def example_user_def)
qed

text \<open>dave does not own n0: his gift of it to bob, who holds five, is refused with
  \<open>NOT_OWNER\<close>, the earlier check.\<close>

theorem gift_capacity_counterexample:
  "nft_count_active example_db ''bob'' = 5
   \<and> nft_gift (Some (token_of ''dave'' [''CUSTOMER'', ''COLLABORATOR''])) ''n0'' ''bob'' example_db
       = (Reject 403 ''NOT_OWNER'', example_db)"
  by (simp add: nft_findUnique_def user_findUnique_def nft_count_active_def
      nft_gift_def example_db_def example_nft_def example_user_def token_of_def)

end
